theory Spec2Isabelle
  imports Main "HOL-Library.AList"
begin

section \<open>Strings and the JavaScript string operations used by the validator\<close>

text \<open>
  A JavaScript string is modelled as a \<^typ>\<open>string\<close>; a \<^typ>\<open>char\<close> stands for one
  code unit below 256. The three characters that cannot be written inside a string
  literal get names.
\<close>

abbreviation DQ :: char where "DQ \<equiv> CHR 0x22"
abbreviation NL :: char where "NL \<equiv> CHR 0x0A"
abbreviation BS :: char where "BS \<equiv> CHR 0x5C"

text \<open>
  \<^verbatim>\<open>String.prototype.trim\<close> removes white space and line terminators from both ends;
  below 256 these are TAB, LF, VT, FF, CR, SP and NBSP.
\<close>

definition is_space :: "char \<Rightarrow> bool" where
  "is_space c = (c \<in> set [CHR 0x09, CHR 0x0A, CHR 0x0B, CHR 0x0C, CHR 0x0D, CHR 0x20, CHR 0xA0])"

definition trim :: "string \<Rightarrow> string" where
  "trim s = rev (dropWhile is_space (rev (dropWhile is_space s)))"

text \<open>\<^verbatim>\<open>s.startsWith(p)\<close>, \<^verbatim>\<open>s.endsWith('\n')\<close> and \<^verbatim>\<open>s.includes(p)\<close> on strings.\<close>

definition startsWith :: "string \<Rightarrow> string \<Rightarrow> bool" where
  "startsWith s p = (take (length p) s = p)"

definition endsWith_nl :: "string \<Rightarrow> bool" where
  "endsWith_nl s = (s \<noteq> [] \<and> last s = NL)"

fun includes_str :: "string \<Rightarrow> string \<Rightarrow> bool" where
  "includes_str [] p = (p = [])"
| "includes_str (c # cs) p = (startsWith (c # cs) p \<or> includes_str cs p)"

text \<open>\<^verbatim>\<open>xs.join(sep)\<close> on an array of strings.\<close>

fun join :: "string \<Rightarrow> string list \<Rightarrow> string" where
  "join sep [] = []"
| "join sep [x] = x"
| "join sep (x # y # ys) = x @ sep @ join sep (y # ys)"

text \<open>
  \<^verbatim>\<open>value.split('; ')\<close>: the pieces between the occurrences of the two-character
  separator, found from left to right. The empty string gives one empty piece.
\<close>

fun split_sep :: "string \<Rightarrow> string list" where
  "split_sep (c # d # cs) =
     (if c = CHR '';'' \<and> d = CHR '' '' then [] # split_sep cs
      else (case split_sep (d # cs) of r # rs \<Rightarrow> (c # r) # rs | [] \<Rightarrow> [[c]]))"
| "split_sep [c] = [[c]]"
| "split_sep [] = [[]]"

text \<open>\<^verbatim>\<open>value.replace(/[,\n]$/, '')\<close>: drops a final comma or newline.\<close>

definition strip_terminator :: "string \<Rightarrow> string" where
  "strip_terminator s = (if s \<noteq> [] \<and> (last s = CHR '','' \<or> last s = NL) then butlast s else s)"

text \<open>\<^verbatim>\<open>value.replace(/""/g, '"')\<close>: every pair of quotes, found from left to right, becomes one.\<close>

fun replace_quotes :: "string \<Rightarrow> string" where
  "replace_quotes (c # d # cs) =
     (if c = DQ \<and> d = DQ then DQ # replace_quotes cs else c # replace_quotes (d # cs))"
| "replace_quotes [c] = [c]"
| "replace_quotes [] = []"

text \<open>\<^verbatim>\<open>s.slice(1, -1)\<close> on a string: without its first and its last character.\<close>

definition slice_1_m1 :: "string \<Rightarrow> string" where
  "slice_1_m1 s = butlast (tl s)"

section \<open>The tokenizer: \<^verbatim>\<open>parseFile\<close>\<close>

text \<open>
  The regular expression \<^verbatim>\<open>/("([^"]|"")*?"|[^,\n]*)(,|\n|$)/g\<close> is tried at the current
  position. \<open>quoted\<close> is the first alternative after its opening quote: the lazy loop
  first tries to close (a quote followed by a comma, a newline or the end of the input),
  and otherwise takes one more character that is not a quote, or one pair of quotes. It
  returns what it matched and the rest of the input, or \<open>None\<close> when the alternative fails.
\<close>

fun quoted :: "string \<Rightarrow> (string \<times> string) option" where
  "quoted [] = None"
| "quoted (c # cs) =
     (if c = DQ then
        (case cs of
           [] \<Rightarrow> Some ([c], [])
         | d # ds \<Rightarrow>
             if d = CHR '','' \<or> d = NL then Some ([c, d], ds)
             else if d = DQ then map_option (\<lambda>(m, r). (c # d # m, r)) (quoted ds)
             else None)
      else map_option (\<lambda>(m, r). (c # m, r)) (quoted cs))"

text \<open>
  The second alternative, \<^verbatim>\<open>[^,\n]*\<close> and then the terminator: the greedy run always
  stops in front of a comma, a newline or the end, so it never fails.
\<close>

definition unquoted :: "string \<Rightarrow> string \<times> string" where
  "unquoted s =
     (let run = takeWhile (\<lambda>c. c \<noteq> CHR '','' \<and> c \<noteq> NL) s;
          rest = dropWhile (\<lambda>c. c \<noteq> CHR '','' \<and> c \<noteq> NL) s
      in case rest of [] \<Rightarrow> (run, []) | d # ds \<Rightarrow> (run @ [d], ds))"

text \<open>One match at the start of the input: the matched text and the input after it.\<close>

definition exec :: "string \<Rightarrow> string \<times> string" where
  "exec s =
     (case s of
        [] \<Rightarrow> unquoted s
      | c # cs \<Rightarrow>
          if c = DQ then (case quoted cs of Some (m, r) \<Rightarrow> (c # m, r) | None \<Rightarrow> unquoted s)
          else unquoted s)"

lemma quoted_append: "quoted s = Some (m, r) \<Longrightarrow> s = m @ r \<and> m \<noteq> []"
proof (induction s arbitrary: m r rule: quoted.induct)
  case 1
  then show ?case by simp
next
  case (2 c cs)
  show ?case
  proof (cases "c = DQ")
    case False
    with "2.prems" obtain m' where q: "quoted cs = Some (m', r)" and m: "m = c # m'"
      by auto
    from "2.IH"(2)[OF False q] m show ?thesis by simp
  next
    case True
    show ?thesis
    proof (cases cs)
      case Nil
      with True "2.prems" show ?thesis by auto
    next
      case (Cons d ds)
      show ?thesis
      proof (cases "d = CHR '','' \<or> d = NL")
        case t: True
        with True Cons "2.prems" show ?thesis by auto
      next
        case nt: False
        show ?thesis
        proof (cases "d = DQ")
          case dq: True
          with True Cons nt "2.prems" obtain m' where q: "quoted ds = Some (m', r)"
            and m: "m = c # d # m'"
            by auto
          from "2.IH"(1)[OF True Cons nt dq q] m Cons show ?thesis by simp
        next
          case False
          with True Cons nt "2.prems" show ?thesis by auto
        qed
      qed
    qed
  qed
qed

lemma unquoted_append: "unquoted s = (m, r) \<Longrightarrow> s = m @ r"
proof -
  let ?p = "\<lambda>c. c \<noteq> CHR '','' \<and> c \<noteq> NL"
  assume a: "unquoted s = (m, r)"
  have "s = takeWhile ?p s @ dropWhile ?p s" by simp
  with a show ?thesis
    unfolding unquoted_def Let_def
    by (cases "dropWhile ?p s") auto
qed

lemma exec_append: "exec s = (m, r) \<Longrightarrow> s = m @ r"
proof (cases s)
  case Nil
  then show "exec s = (m, r) \<Longrightarrow> s = m @ r"
    by (auto simp: exec_def dest: unquoted_append)
next
  case (Cons c cs)
  assume e: "exec s = (m, r)"
  show "s = m @ r"
  proof (cases "c = DQ")
    case False
    with e Cons show ?thesis by (auto simp: exec_def dest: unquoted_append)
  next
    case True
    show ?thesis
    proof (cases "quoted cs")
      case None
      with e Cons True show ?thesis by (auto simp: exec_def dest: unquoted_append)
    next
      case (Some p)
      obtain m' r' where p: "p = (m', r')" by (cases p)
      from quoted_append[of cs m' r'] Some p have "cs = m' @ r'" by simp
      with e Cons True Some p show ?thesis by (auto simp: exec_def)
    qed
  qed
qed

text \<open>
  \<^verbatim>\<open>String.prototype.match\<close> with the \<^verbatim>\<open>g\<close> flag collects the matches from left to
  right. After an empty match the position moves on by one: here that happens at the end
  of the input only, where it ends the search.
\<close>

function match_g :: "string \<Rightarrow> string list" where
  "match_g s =
     (case exec s of
        (m, r) \<Rightarrow>
          if m = [] then (case r of [] \<Rightarrow> [[]] | c # r' \<Rightarrow> [] # match_g r')
          else m # match_g r)"
  by pat_completeness auto
termination
proof (relation "measure length")
  show "wf (measure length)" by simp
next
  fix s :: string and x y :: string and c r'
  assume "(x, y) = exec s" "y = c # r'" "x = []"
  then show "(r', s) \<in> measure length"
    using exec_append[of s x y] by simp
next
  fix s :: string and x y :: string
  assume "(x, y) = exec s" "x \<noteq> []"
  then show "(y, s) \<in> measure length"
    using exec_append[of s x y] by simp
qed

declare match_g.simps [simp del]

text \<open>
  The callback of \<^verbatim>\<open>reduce\<close>: \<open>last\<close> is the row that was the last one before a new
  row is pushed; the value loses its terminator, and a value that starts with a quote has
  its pairs of quotes replaced and then loses its first and last character (\<open>unquote\<close>,
  the argument of \<^verbatim>\<open>last.push\<close>). The list of rows is never empty.
\<close>

definition unquote :: "string \<Rightarrow> string" where
  "unquote value = (if startsWith value [DQ] then slice_1_m1 (replace_quotes value) else value)"

definition reducer :: "string list list \<Rightarrow> string \<Rightarrow> string list list" where
  "reducer rows value0 =
     (let i = length rows - 1;
          rows' = (if endsWith_nl value0 then rows @ [[]] else rows);
          value = strip_terminator value0
      in rows'[i := (rows' ! i) @ [unquote value]])"

text \<open>All rows, before the first one is dropped.\<close>

definition all_rows :: "string \<Rightarrow> string list list" where
  "all_rows input = foldl reducer [[]] (butlast (match_g input))"

definition parseFile :: "string \<Rightarrow> string list list" where
  "parseFile file = drop 1 (all_rows (trim file))"

section \<open>Values, errors and the collaborators from outside the repository\<close>

text \<open>
  A field of a record holds a string, an array of strings, or \<^verbatim>\<open>undefined\<close> (when the row
  ran out of columns). A record is an object whose keys keep their insertion order.
\<close>

datatype jsval = Str string | Arr "string list" | Undefined

type_synonym entry = "(string \<times> jsval) list"

definition get :: "entry \<Rightarrow> string \<Rightarrow> jsval" where
  "get entry field = (case map_of entry field of None \<Rightarrow> Undefined | Some v \<Rightarrow> v)"

text \<open>
  What the code throws: \<^verbatim>\<open>new Error(message)\<close>, or the \<^verbatim>\<open>TypeError\<close> of the runtime for a
  property read on \<^verbatim>\<open>undefined\<close> (with the message text of V8).
\<close>

datatype js_error = Error string | TypeError string

fun message :: "js_error \<Rightarrow> string" where
  "message (Error m) = m"
| "message (TypeError m) = m"

definition cannot_read :: "string \<Rightarrow> js_error" where
  "cannot_read property =
     TypeError (''Cannot read properties of undefined (reading '' @ [CHR 0x27] @ property @ [CHR 0x27] @ '')'')"

definition toString :: "jsval \<Rightarrow> js_error + string" where
  "toString v =
     (case v of Str s \<Rightarrow> Inr s | Arr xs \<Rightarrow> Inr (join '','' xs) | Undefined \<Rightarrow> Inl (cannot_read ''toString''))"

definition js_length :: "jsval \<Rightarrow> js_error + nat" where
  "js_length v =
     (case v of Str s \<Rightarrow> Inr (length s) | Arr xs \<Rightarrow> Inr (length xs) | Undefined \<Rightarrow> Inl (cannot_read ''length''))"

text \<open>
  \<^verbatim>\<open>v.includes(p)\<close> is a substring test on a string and a membership test on an array. It is
  only reached after \<^verbatim>\<open>v.toString()\<close> has succeeded, so never on \<^verbatim>\<open>undefined\<close>.
\<close>

definition js_includes :: "jsval \<Rightarrow> string \<Rightarrow> bool" where
  "js_includes v p = (case v of Str s \<Rightarrow> includes_str s p | Arr xs \<Rightarrow> p \<in> set xs | Undefined \<Rightarrow> False)"

text \<open>
  The modules the code requires are parameters of the model: the table of SPDX licences
  (\<^verbatim>\<open>spdxLicenseList[value]\<close> is truthy), the language tag test, the regular expression
  engine of the runtime (\<^verbatim>\<open>test\<close>, for the expression with the given source text), and the
  four chalk styles that wrap a text in colour codes.
\<close>

record ext =
  spdxLicenseList :: "string \<Rightarrow> bool"
  ietfTagList_test :: "string \<Rightarrow> bool"
  RegExp_test :: "string \<Rightarrow> string \<Rightarrow> bool"
  chalk_green :: "string \<Rightarrow> string"
  chalk_yellow :: "string \<Rightarrow> string"
  chalk_blue :: "string \<Rightarrow> string"
  chalk_black_bgWhite :: "string \<Rightarrow> string"

section \<open>\<^verbatim>\<open>FORMATS\<close>, \<^verbatim>\<open>CHECK\<close> and \<^verbatim>\<open>SCHEMA\<close>\<close>

text \<open>
  A format is an array of allowed values, a regular expression (given by its source) or
  one of the two functions of \<^verbatim>\<open>FORMATS\<close>.
\<close>

datatype predicate = LICENSE | LANGUAGE

datatype format = EnumList "string list" | RegExp string | Function predicate

definition FORMATS_ENTRY_TYPE :: format where
  "FORMATS_ENTRY_TYPE = EnumList [''print'', ''online'', ''cd'']"

definition FORMATS_KEY_TYPE :: format where
  "FORMATS_KEY_TYPE =
     EnumList [''key'', ''matrix'', ''reference'', ''gallery'', ''checklist'', ''supplement'', ''collection'']"

definition FORMATS_COMPLETE :: format where
  "FORMATS_COMPLETE = EnumList [''TRUE'', ''FALSE'']"

definition FORMATS_ID :: format where
  "FORMATS_ID = RegExp (''^B'' @ [BS] @ ''d+$'')"

definition FORMATS_URL :: format where
  "FORMATS_URL = RegExp (''^https?:'' @ [BS] @ ''/'' @ [BS] @ ''/(www'' @ [BS] @ ''.)?[-a-zA-Z0-9@:%._'' @ [BS] @ ''+~#=]{1,256}'' @ [BS] @ ''.[a-zA-Z0-9()]{1,6}'' @ [BS] @ ''b([-a-zA-Z0-9()@:%_'' @ [BS] @ ''+.~#?&//=]*)$'')"

definition FORMATS_EDTF_0 :: format where
  "FORMATS_EDTF_0 = RegExp (''^('' @ [BS] @ ''d{4}(-'' @ [BS] @ ''d{2}(-'' @ [BS] @ ''d{2}(T'' @ [BS] @ ''d{2}:'' @ [BS] @ ''d{2}:'' @ [BS] @ ''d{2}(Z|[-+]'' @ [BS] @ ''d{2}(:'' @ [BS] @ ''d{2})?))?)?)?|'' @ [BS] @ ''d{4}(-'' @ [BS] @ ''d{2}(-'' @ [BS] @ ''d{2})?)?'' @ [BS] @ ''/'' @ [BS] @ ''d{4}(-'' @ [BS] @ ''d{2}(-'' @ [BS] @ ''d{2})?)?)$'')"

definition FORMATS_ISSN_L :: format where
  "FORMATS_ISSN_L = RegExp (''^[0-9]{4}-[0-9]{3}[0-9X]$'')"

definition FORMATS_ISBN :: format where
  "FORMATS_ISBN = RegExp (''^('' @ [BS] @ ''d{13}|'' @ [BS] @ ''d{9}[0-9X])$'')"

definition FORMATS_DOI :: format where
  "FORMATS_DOI = RegExp (''^10'' @ [BS] @ ''.'')"

definition FORMATS_QID :: format where
  "FORMATS_QID = RegExp (''^Q[1-9][0-9]*$'')"

fun FORMATS_call :: "ext \<Rightarrow> predicate \<Rightarrow> string \<Rightarrow> bool" where
  "FORMATS_call x LICENSE value = spdxLicenseList x value"
| "FORMATS_call x LANGUAGE value = ietfTagList_test x value"

fun name :: "predicate \<Rightarrow> string" where
  "name LICENSE = ''LICENSE''"
| "name LANGUAGE = ''LANGUAGE''"

text \<open>
  The two functions of \<^verbatim>\<open>CHECK\<close>. In \<^verbatim>\<open>CHECK.ISBN\<close> the code reads \<^verbatim>\<open>entry.ISBN.length[0]\<close>:
  a property of a number, which is \<^verbatim>\<open>undefined\<close>, and then its \<^verbatim>\<open>length\<close>.
\<close>

datatype check = MULTILANG | ISBN

definition number_property :: "nat \<Rightarrow> nat \<Rightarrow> jsval" where
  "number_property n i = Undefined"

fun CHECK :: "check \<Rightarrow> entry \<Rightarrow> js_error + bool" where
  "CHECK MULTILANG entry =
     (case js_length (get entry ''language'') of Inl e \<Rightarrow> Inl e | Inr n \<Rightarrow> Inr (n > 1))"
| "CHECK ISBN entry =
     (case js_length (get entry ''ISBN'') of
        Inl e \<Rightarrow> Inl e
      | Inr n \<Rightarrow>
          if n < 2 then Inr False
          else (case js_length (number_property n 0) of Inl e \<Rightarrow> Inl e | Inr la \<Rightarrow>
               (case js_length (number_property n 0) of Inl e \<Rightarrow> Inl e | Inr lb \<Rightarrow>
               (case js_length (number_property n 1) of Inl e \<Rightarrow> Inl e | Inr lc \<Rightarrow>
               (case js_length (number_property n 1) of Inl e \<Rightarrow> Inl e | Inr ld \<Rightarrow>
                  Inr ((la = 10 \<and> ld = 13) \<or> (lb = 13 \<and> lc = 10)))))))"

text \<open>
  The \<^verbatim>\<open>multiple\<close> attribute of a rule is a boolean or one of the functions of \<^verbatim>\<open>CHECK\<close>; a
  function is a truthy value.
\<close>

datatype cardinality = Bool bool | Check check

fun truthy :: "cardinality \<Rightarrow> bool" where
  "truthy (Bool b) = b"
| "truthy (Check c) = True"

record rule =
  required :: bool
  multiple :: cardinality
  format :: "format option"

definition mk :: "bool \<Rightarrow> cardinality \<Rightarrow> format option \<Rightarrow> rule" where
  "mk r m f = \<lparr>required = r, multiple = m, format = f\<rparr>"

definition SCHEMA_catalog :: "(string \<times> rule) list" where
  "SCHEMA_catalog =
     [(''id'', mk True (Bool False) (Some FORMATS_ID)),
      (''title'', mk True (Check MULTILANG) None),
      (''author'', mk False (Bool True) None),
      (''url'', mk False (Bool True) (Some FORMATS_URL)),
      (''fulltext_url'', mk False (Bool True) (Some FORMATS_URL)),
      (''archive_url'', mk False (Bool True) (Some FORMATS_URL)),
      (''entry_type'', mk True (Bool False) (Some FORMATS_ENTRY_TYPE)),
      (''date'', mk False (Bool False) (Some FORMATS_EDTF_0)),
      (''publisher'', mk False (Bool True) None),
      (''series'', mk False (Bool False) None),
      (''ISSN'', mk False (Bool False) (Some FORMATS_ISSN_L)),
      (''ISBN'', mk False (Check ISBN) (Some FORMATS_ISBN)),
      (''DOI'', mk False (Bool False) (Some FORMATS_DOI)),
      (''QID'', mk False (Bool False) (Some FORMATS_QID)),
      (''volume'', mk False (Bool False) None),
      (''issue'', mk False (Bool False) None),
      (''pages'', mk False (Bool False) None),
      (''edition'', mk False (Bool False) None),
      (''language'', mk True (Bool True) (Some (Function LANGUAGE))),
      (''license'', mk False (Bool True) (Some (Function LICENSE))),
      (''key_type'', mk True (Bool True) (Some FORMATS_KEY_TYPE)),
      (''taxon'', mk True (Bool True) None),
      (''scope'', mk False (Bool True) None),
      (''region'', mk True (Bool True) None),
      (''complete'', mk False (Bool False) (Some FORMATS_COMPLETE)),
      (''target_taxa'', mk False (Bool True) None),
      (''part_of'', mk False (Bool True) (Some FORMATS_ID))]"

definition SCHEMA_authors :: "(string \<times> rule) list" where
  "SCHEMA_authors =
     [(''name'', mk True (Bool False) None),
      (''qid'', mk False (Bool False) (Some FORMATS_QID)),
      (''main_full_name'', mk False (Bool False) None),
      (''full_names'', mk False (Bool True) None)]"

definition SCHEMA_publishers :: "(string \<times> rule) list" where
  "SCHEMA_publishers =
     [(''name'', mk True (Bool False) None),
      (''qid'', mk False (Bool False) (Some FORMATS_QID)),
      (''full_name'', mk False (Bool False) None),
      (''long_name'', mk False (Bool True) None)]"

definition SCHEMA_places :: "(string \<times> rule) list" where
  "SCHEMA_places =
     [(''name'', mk True (Bool False) None),
      (''qid'', mk False (Bool False) (Some FORMATS_QID)),
      (''display_name'', mk False (Bool False) None)]"

definition SCHEMA :: "(string \<times> (string \<times> rule) list) list" where
  "SCHEMA =
     [(''catalog'', SCHEMA_catalog), (''authors'', SCHEMA_authors),
      (''publishers'', SCHEMA_publishers), (''places'', SCHEMA_places)]"

text \<open>
  \<^verbatim>\<open>SCHEMA[sheet][field]\<close>, read in order to get one of its properties: a sheet or a field
  that is missing makes the next property read a \<^verbatim>\<open>TypeError\<close>.
\<close>

definition SCHEMA_rule :: "string \<Rightarrow> string \<Rightarrow> string \<Rightarrow> js_error + rule" where
  "SCHEMA_rule sheet field property =
     (case map_of SCHEMA sheet of
        None \<Rightarrow> Inl (cannot_read field)
      | Some fs \<Rightarrow>
          (case map_of fs field of None \<Rightarrow> Inl (cannot_read property) | Some r \<Rightarrow> Inr r))"

section \<open>The validator\<close>

definition validateValue :: "ext \<Rightarrow> entry \<Rightarrow> string \<Rightarrow> string \<Rightarrow> string \<Rightarrow> js_error + unit" where
  "validateValue x entry sheet field value =
     (case SCHEMA_rule sheet field ''format'' of
        Inl e \<Rightarrow> Inl e
      | Inr r \<Rightarrow>
          (case format r of
             None \<Rightarrow> Inr ()
           | Some (EnumList allowed) \<Rightarrow>
               if value \<notin> set allowed
               then Inl (Error (''The value '' @ [DQ] @ chalk_green x value @ [DQ] @ '' is not included: ''
                                @ chalk_yellow x (join '', '' allowed)))
               else Inr ()
           | Some (RegExp source) \<Rightarrow>
               if \<not> RegExp_test x source value
               then Inl (Error (''The value '' @ [DQ] @ chalk_green x value @ [DQ]
                                @ '' does not conform to pattern: '' @ chalk_yellow x source))
               else Inr ()
           | Some (Function f) \<Rightarrow>
               if \<not> FORMATS_call x f value
               then Inl (Error (''The value '' @ [DQ] @ chalk_green x value @ [DQ]
                                @ '' does not conform to pattern: '' @ chalk_yellow x (name f)))
               else Inr ()))"

text \<open>The loop over the values of an array field: every error is caught and its message kept.\<close>

fun validateField_loop ::
  "ext \<Rightarrow> entry \<Rightarrow> string \<Rightarrow> string \<Rightarrow> string list \<Rightarrow> string list \<Rightarrow> string list" where
  "validateField_loop x entry sheet field [] errors = errors"
| "validateField_loop x entry sheet field (value # values) errors =
     (case validateValue x entry sheet field value of
        Inl error \<Rightarrow> validateField_loop x entry sheet field values (errors @ [message error])
      | Inr u \<Rightarrow> validateField_loop x entry sheet field values errors)"

definition validateField :: "ext \<Rightarrow> entry \<Rightarrow> string \<Rightarrow> string \<Rightarrow> js_error + unit" where
  "validateField x entry sheet field =
     (case SCHEMA_rule sheet field ''required'' of
        Inl e \<Rightarrow> Inl e
      | Inr r \<Rightarrow>
          (case toString (get entry field) of
             Inl e \<Rightarrow> Inl e
           | Inr text \<Rightarrow>
               if required r \<and> text = [] then Inl (Error ''Value(s) required but missing'')
               else if text = [] then Inr ()
               else
                 (case (case multiple r of Check c \<Rightarrow> CHECK c entry | Bool b \<Rightarrow> Inr b) of
                    Inl e \<Rightarrow> Inl e
                  | Inr m \<Rightarrow>
                      if m = False \<and> js_includes (get entry field) ''; ''
                      then Inl (Error ''Multiple values but only one expected'')
                      else
                        (case get entry field of
                           Arr values \<Rightarrow>
                             (let errors = validateField_loop x entry sheet field values []
                              in if errors \<noteq> [] then Inl (Error (join ''; '' errors)) else Inr ())
                         | Str s \<Rightarrow> validateValue x entry sheet field s
                         | Undefined \<Rightarrow> Inl (cannot_read ''toString'')))))"

text \<open>The loop over the fields of the record, in the order of its keys.\<close>

fun validateEntry_loop :: "ext \<Rightarrow> entry \<Rightarrow> string \<Rightarrow> string list \<Rightarrow> string list \<Rightarrow> string list" where
  "validateEntry_loop x entry sheet [] errors = errors"
| "validateEntry_loop x entry sheet (field # fs) errors =
     (case validateField x entry sheet field of
        Inl error \<Rightarrow>
          validateEntry_loop x entry sheet fs (errors @ [chalk_blue x field @ '': '' @ message error])
      | Inr u \<Rightarrow> validateEntry_loop x entry sheet fs errors)"

definition validateEntry :: "ext \<Rightarrow> entry \<Rightarrow> string \<Rightarrow> js_error + unit" where
  "validateEntry x entry sheet =
     (let errors = validateEntry_loop x entry sheet (map fst entry) []
      in if errors \<noteq> [] then Inl (Error (join [NL] errors)) else Inr ())"

section \<open>The record mapper: \<^verbatim>\<open>parseEntry\<close>\<close>

text \<open>
  \<^verbatim>\<open>row.shift()\<close> takes the first column, or gives \<^verbatim>\<open>undefined\<close> when the row is empty, and
  \<^verbatim>\<open>undefined.split\<close> throws. A \<^verbatim>\<open>for ... in\<close> over \<^verbatim>\<open>undefined\<close>, the schema of a sheet that
  is not in \<^verbatim>\<open>SCHEMA\<close>, runs no iteration and throws nothing; a name that \<^verbatim>\<open>SCHEMA\<close> inherits
  from \<^verbatim>\<open>Object.prototype\<close> gives an object without enumerable properties, with the same
  result. Assigning to a key of the record that is not there yet appends it.
\<close>

fun parseEntry_loop :: "(string \<times> rule) list \<Rightarrow> string list \<Rightarrow> entry \<Rightarrow> js_error + entry" where
  "parseEntry_loop [] row entry = Inr entry"
| "parseEntry_loop ((field, r) # fs) row entry =
     (case (if truthy (multiple r)
            then (case row of [] \<Rightarrow> Inl (cannot_read ''split'') | v # rest \<Rightarrow> Inr (Arr (split_sep v)))
            else (case row of [] \<Rightarrow> Inr Undefined | v # rest \<Rightarrow> Inr (Str v))) of
        Inl e \<Rightarrow> Inl e
      | Inr value \<Rightarrow> parseEntry_loop fs (tl row) (AList.update field value entry))"

definition parseEntry :: "string list \<Rightarrow> string \<Rightarrow> js_error + entry" where
  "parseEntry row sheet =
     (case map_of SCHEMA sheet of
        None \<Rightarrow> Inr []
      | Some fs \<Rightarrow> parseEntry_loop fs row [])"

section \<open>\<^verbatim>\<open>validate\<close>\<close>

text \<open>
  The heading of a record in the report, \<^verbatim>\<open>chalk.black.bgWhite('=====', entry[0], '=====')\<close>:
  chalk joins its arguments with a space; the missing first column of an empty row prints
  as \<^verbatim>\<open>undefined\<close>.
\<close>

definition heading :: "ext \<Rightarrow> string list \<Rightarrow> string" where
  "heading x row =
     chalk_black_bgWhite x
       (''====='' @ '' '' @ (case row of [] \<Rightarrow> ''undefined'' | c # cs \<Rightarrow> c) @ '' '' @ ''====='')"

text \<open>The body of the \<^verbatim>\<open>try\<close> block: map the row, then validate the record.\<close>

definition try_entry :: "ext \<Rightarrow> string \<Rightarrow> string list \<Rightarrow> js_error + unit" where
  "try_entry x sheet row =
     (case parseEntry row sheet of Inl e \<Rightarrow> Inl e | Inr entry \<Rightarrow> validateEntry x entry sheet)"

fun validate_loop :: "ext \<Rightarrow> string \<Rightarrow> string list list \<Rightarrow> string list \<Rightarrow> string list" where
  "validate_loop x sheet [] errors = errors"
| "validate_loop x sheet (row # rows) errors =
     (case try_entry x sheet row of
        Inl error \<Rightarrow> validate_loop x sheet rows (errors @ [heading x row @ [NL] @ message error])
      | Inr u \<Rightarrow> validate_loop x sheet rows errors)"

definition validate :: "ext \<Rightarrow> string \<Rightarrow> string \<Rightarrow> js_error + unit" where
  "validate x file sheet =
     (let entries = parseFile file;
          errors = validate_loop x sheet entries []
      in if errors \<noteq> [] then Inl (Error ([NL] @ join [NL, NL] errors)) else Inr ())"

section \<open>The words of the specification\<close>

text \<open>
  The record mapper as the specification describes it: the columns are taken in the
  order of the schema; a field whose \<open>multiple\<close> attribute is the static \<open>true\<close> or a
  function holds the pieces of the raw string, a field whose attribute is the static
  \<open>false\<close> the raw string itself.
\<close>

definition stored :: "cardinality \<Rightarrow> string \<Rightarrow> jsval" where
  "stored m v =
     (case m of
        Bool b \<Rightarrow> if b then Arr (split_sep v) else Str v
      | Check c \<Rightarrow> Arr (split_sep v))"

definition mapped :: "(string \<times> rule) list \<Rightarrow> string list \<Rightarrow> entry" where
  "mapped fs row = map (\<lambda>p. (fst (fst p), stored (multiple (snd (fst p))) (snd p))) (zip fs row)"

text \<open>
  The format check as the specification describes it: the scalars of a value, the checker
  of each kind of format, what the message names as expected, and the message for one
  failing scalar.
\<close>

fun scalars :: "jsval \<Rightarrow> string list" where
  "scalars (Str s) = [s]"
| "scalars (Arr xs) = xs"
| "scalars Undefined = []"

fun conforms :: "ext \<Rightarrow> format \<Rightarrow> string \<Rightarrow> bool" where
  "conforms x (EnumList allowed) value = (value \<in> set allowed)"
| "conforms x (RegExp source) value = RegExp_test x source value"
| "conforms x (Function f) value = FORMATS_call x f value"

fun expected :: "format \<Rightarrow> string" where
  "expected (EnumList allowed) = join '', '' allowed"
| "expected (RegExp source) = source"
| "expected (Function f) = name f"

fun kind_text :: "format \<Rightarrow> string" where
  "kind_text (EnumList allowed) = '' is not included: ''"
| "kind_text (RegExp source) = '' does not conform to pattern: ''"
| "kind_text (Function f) = '' does not conform to pattern: ''"

definition format_violation :: "ext \<Rightarrow> format \<Rightarrow> string \<Rightarrow> string" where
  "format_violation x f value =
     ''The value '' @ [DQ] @ chalk_green x value @ [DQ] @ kind_text f @ chalk_yellow x (expected f)"

text \<open>
  The report as the specification describes it: the line of a violation, the violations
  of a record (field and message, for every field that has a violation, in the order of
  the fields), the groups of a file (the rows that have a violation, each with its
  violations, in the order of the rows), and the text of the run-ending error.
\<close>

definition line :: "ext \<Rightarrow> string \<times> string \<Rightarrow> string" where
  "line x v = chalk_blue x (fst v) @ '': '' @ snd v"

text \<open>
  A field-level violation as the specification describes it: what the check of a field
  reports about its value, that is the message of the \<^verbatim>\<open>Error\<close> it throws (a missing
  required value, a cardinality mismatch or a format mismatch). A \<^verbatim>\<open>TypeError\<close> of the
  runtime is a crash of the check, not a violation.
\<close>

definition field_violation :: "ext \<Rightarrow> string \<Rightarrow> entry \<Rightarrow> string \<Rightarrow> string option" where
  "field_violation x sheet entry field =
     (case validateField x entry sheet field of
        Inl (Error m) \<Rightarrow> Some m
      | Inl (TypeError m) \<Rightarrow> None
      | Inr u \<Rightarrow> None)"

definition violations :: "ext \<Rightarrow> string \<Rightarrow> entry \<Rightarrow> (string \<times> string) list" where
  "violations x sheet entry =
     concat (map (\<lambda>field. case field_violation x sheet entry field of
                              Some m \<Rightarrow> [(field, m)]
                            | None \<Rightarrow> [])
                 (map fst entry))"

definition report ::
  "ext \<Rightarrow> string \<Rightarrow> (string \<times> rule) list \<Rightarrow> string list list \<Rightarrow> (string list \<times> (string \<times> string) list) list" where
  "report x sheet fs rows =
     filter (\<lambda>g. snd g \<noteq> []) (map (\<lambda>row. (row, violations x sheet (mapped fs row))) rows)"

definition render_group :: "ext \<Rightarrow> string list \<times> (string \<times> string) list \<Rightarrow> string" where
  "render_group x g = heading x (fst g) @ [NL] @ join [NL] (map (line x) (snd g))"

definition render :: "ext \<Rightarrow> (string list \<times> (string \<times> string) list) list \<Rightarrow> string" where
  "render x groups = [NL] @ join [NL, NL] (map (render_group x) groups)"

text \<open>The entry of one row in the list of errors: nothing, or the heading of the row and the message.\<close>

definition group :: "ext \<Rightarrow> string \<Rightarrow> string list \<Rightarrow> string list" where
  "group x sheet row =
     (case try_entry x sheet row of Inl e \<Rightarrow> [heading x row @ [NL] @ message e] | Inr u \<Rightarrow> [])"

text \<open>
  A quoted field as the specification describes it: the text with every quote doubled,
  between two quotes.
\<close>

definition escape :: "string \<Rightarrow> string" where
  "escape t = concat (map (\<lambda>c. if c = DQ then [DQ, DQ] else [c]) t)"

definition quote_field :: "string \<Rightarrow> string" where
  "quote_field t = DQ # escape t @ [DQ]"

text \<open>
  The first row lies on the first line: of the fields of the tokenizer, from the start
  of the input up to the first one that ends a row, none holds a newline before its last
  character. Only a quoted field can hold one.
\<close>

function one_line_row :: "string \<Rightarrow> bool" where
  "one_line_row s =
     (case exec s of
        (m, r) \<Rightarrow>
          if m = [] then True
          else if NL \<in> set (butlast m) then False
          else if endsWith_nl m then True
          else one_line_row r)"
  by pat_completeness auto
termination
proof (relation "measure length")
  show "wf (measure length)" by simp
next
  fix s :: string and x y :: string
  assume "(x, y) = exec s" "x \<noteq> []"
  then show "(y, s) \<in> measure length"
    using exec_append[of s x y] by simp
qed

declare one_line_row.simps [simp del]

section \<open>A concrete choice of the collaborators\<close>

text \<open>
  To run the model on concrete inputs: colours switched off, a few licences and language
  tags, and recognisers for the five short patterns. Any other expression (the URL and
  the date pattern) is taken to reject every value; the inputs below leave those fields
  empty, and an empty field is never tested against its format.
\<close>

definition digit :: "char \<Rightarrow> bool" where
  "digit c = (c \<in> set ''0123456789'')"

definition sample_test :: "string \<Rightarrow> string \<Rightarrow> bool" where
  "sample_test source v =
     (if RegExp source = FORMATS_ID then
        (case v of [] \<Rightarrow> False | c # ds \<Rightarrow> c = CHR ''B'' \<and> ds \<noteq> [] \<and> list_all digit ds)
      else if RegExp source = FORMATS_QID then
        (case v of c # d # ds \<Rightarrow> c = CHR ''Q'' \<and> d \<in> set ''123456789'' \<and> list_all digit ds | _ \<Rightarrow> False)
      else if RegExp source = FORMATS_ISBN then
        (length v = 13 \<and> list_all digit v)
        \<or> (length v = 10 \<and> list_all digit (butlast v) \<and> (digit (last v) \<or> last v = CHR ''X''))
      else if RegExp source = FORMATS_ISSN_L then
        length v = 9 \<and> list_all digit (take 4 v) \<and> v ! 4 = CHR ''-'' \<and> list_all digit (take 3 (drop 5 v))
        \<and> (digit (v ! 8) \<or> v ! 8 = CHR ''X'')
      else if RegExp source = FORMATS_DOI then take 3 v = ''10.''
      else False)"

definition sample_ext :: ext where
  "sample_ext =
     \<lparr>spdxLicenseList = (\<lambda>v. v \<in> set [''MIT'', ''CC0-1.0'', ''CC-BY-4.0'']),
      ietfTagList_test = (\<lambda>v. v \<in> set [''en'', ''fr'', ''nl'', ''de'']),
      RegExp_test = sample_test,
      chalk_green = (\<lambda>t. t),
      chalk_yellow = (\<lambda>t. t),
      chalk_blue = (\<lambda>t. t),
      chalk_black_bgWhite = (\<lambda>t. t)\<rparr>"

text \<open>One row of the \<open>catalog\<close> sheet, 27 columns, with a given title, ISBN and language.\<close>

definition catalog_row :: "string \<Rightarrow> string \<Rightarrow> string \<Rightarrow> string" where
  "catalog_row title isbn language =
     ''B1,'' @ title @ '',Smith,,,,print,,,,,'' @ isbn @ '',,Q42,,,,,'' @ language
     @ '',MIT,key,Mammalia,,US,,,B2''"

section \<open>Sheets that are not in the schema\<close>

lemma SCHEMA_sheets:
  "map_of SCHEMA sheet = None \<longleftrightarrow> sheet \<notin> set [''catalog'', ''authors'', ''publishers'', ''places'']"
  by (simp add: SCHEMA_def)

lemma validateEntry_Nil: "validateEntry x [] sheet = Inr ()"
  by (simp add: validateEntry_def)

lemma try_entry_unknown: "map_of SCHEMA sheet = None \<Longrightarrow> try_entry x sheet row = Inr ()"
  by (simp add: try_entry_def parseEntry_def validateEntry_Nil)

lemma validate_loop_unknown:
  "map_of SCHEMA sheet = None \<Longrightarrow> validate_loop x sheet rows errors = errors"
  by (induction rows arbitrary: errors) (simp_all add: try_entry_unknown)

text \<open>
  Claim C1 says that \<open>validate\<close> with a sheet name outside the four registered sheets raises
  an unknown-sheet error and never returns success. Counterexample: for the sheet
  \<open>books\<close> and a file with one data row, \<open>validate\<close> returns without an error.
\<close>

theorem unknown_sheet_counterexample:
  "''books'' \<notin> set [''catalog'', ''authors'', ''publishers'', ''places'']
   \<and> validate sample_ext (''name'' @ [NL] @ ''Smith'') ''books'' = Inr ()"
  by code_simp

text \<open>
  Claim C1, amended: for every input file and every sheet name that is not one of the four
  registered sheets, no error is raised at all: every row is mapped to the record
  without fields, and \<open>validate\<close> returns success.
\<close>

theorem validate_unknown_sheet:
  assumes "sheet \<notin> set [''catalog'', ''authors'', ''publishers'', ''places'']"
  shows "parseEntry row sheet = Inr [] \<and> validate x file sheet = Inr ()"
proof -
  from assms SCHEMA_sheets[of sheet] have n: "map_of SCHEMA sheet = None" by blast
  then show ?thesis
    by (simp add: parseEntry_def validate_def validate_loop_unknown)
qed

theorem validate_unknown_sheet_witness:
  "''books'' \<notin> set [''catalog'', ''authors'', ''publishers'', ''places'']
   \<and> parseEntry [''Smith'', ''Q1''] ''books'' = Inr []
   \<and> validate sample_ext (''name,qid'' @ [NL] @ ''Smith,Q1'') ''books'' = Inr ()"
  using validate_unknown_sheet[of "''books''" "[''Smith'', ''Q1'']" sample_ext
          "''name,qid'' @ [NL] @ ''Smith,Q1''"]
  by simp

section \<open>The record mapper\<close>

lemma update_fresh: "k \<notin> fst ` set al \<Longrightarrow> AList.update k v al = al @ [(k, v)]"
  by (induction al) auto

lemma truthy_stored: "(if truthy m then Arr (split_sep v) else Str v) = stored m v"
  by (cases m) (simp_all add: stored_def)

lemma mapped_Cons: "mapped ((field, r) # fs) (v # rest) = (field, stored (multiple r) v) # mapped fs rest"
  by (simp add: mapped_def)

lemma parseEntry_loop_mapped:
  "distinct (map fst fs) \<Longrightarrow> fst ` set acc \<inter> fst ` set fs = {} \<Longrightarrow> length fs \<le> length row
   \<Longrightarrow> parseEntry_loop fs row acc = Inr (acc @ mapped fs row)"
proof (induction fs arbitrary: row acc)
  case Nil
  then show ?case by (simp add: mapped_def)
next
  case (Cons p fs)
  obtain field r where p: "p = (field, r)" by (cases p)
  from Cons.prems(3) obtain v rest where row: "row = v # rest" by (cases row) auto
  let ?cell = "stored (multiple r) v"
  from Cons.prems(2) p have fresh: "field \<notin> fst ` set acc" by auto
  have cell: "?cell = (if truthy (multiple r) then Arr (split_sep v) else Str v)"
    by (simp add: truthy_stored)
  have step: "parseEntry_loop (p # fs) row acc = parseEntry_loop fs rest (acc @ [(field, ?cell)])"
    using p row fresh by (simp add: update_fresh cell)
  have d: "distinct (map fst fs)" using Cons.prems(1) by simp
  have dis: "fst ` set (acc @ [(field, ?cell)]) \<inter> fst ` set fs = {}"
    using Cons.prems(1,2) p by auto
  have len: "length fs \<le> length rest" using Cons.prems(3) row by simp
  from Cons.IH[OF d dis len] step p row show ?case by (simp add: mapped_Cons)
qed

lemma SCHEMA_distinct: "map_of SCHEMA sheet = Some fs \<Longrightarrow> distinct (map fst fs)"
  by (auto simp: SCHEMA_def SCHEMA_catalog_def SCHEMA_authors_def SCHEMA_publishers_def
        SCHEMA_places_def split: if_splits)

lemma map_fst_mapped: "length fs \<le> length row \<Longrightarrow> map fst (mapped fs row) = map fst fs"
proof (induction fs arbitrary: row)
  case Nil
  then show ?case by (simp add: mapped_def)
next
  case (Cons p fs)
  then obtain v rest where "row = v # rest" by (cases row) auto
  with Cons show ?case by (cases p) (simp add: mapped_Cons)
qed

lemma parseEntry_mapped:
  "map_of SCHEMA sheet = Some fs \<Longrightarrow> length fs \<le> length row
   \<Longrightarrow> parseEntry row sheet = Inr (mapped fs row)"
  using parseEntry_loop_mapped[of fs "[]" row] SCHEMA_distinct[of sheet fs]
  by (simp add: parseEntry_def)

text \<open>
  Claim C5 says that for every raw row the record mapper stores, for each field, the raw
  string split at the separator or the raw string itself. Counterexample: a row with
  fewer columns than the sheet has fields has no raw string for its last fields; the
  mapper stores \<^verbatim>\<open>undefined\<close> for a single-valued field without a column, and raises at a
  multi-valued field without a column.
\<close>

theorem parseEntry_short_row_counterexample:
  "parseEntry [''Smith''] ''places''
     = Inr [(''name'', Str ''Smith''), (''qid'', Undefined), (''display_name'', Undefined)]
   \<and> parseEntry [''Smith'', ''Q1''] ''authors'' = Inl (cannot_read ''split'')"
  by code_simp

text \<open>
  Claim C5, amended: for every registered sheet and every raw row that has at least as
  many columns as the sheet has fields, the record mapper takes the columns in the order
  of the schema and stores each under the name of its field: the raw string split at the
  separator when the \<open>multiple\<close> attribute of the field is the static \<open>true\<close> or a function
  (which is not called), and the raw string unchanged when it is the static \<open>false\<close>.
\<close>

theorem parseEntry_in_schema_order:
  assumes "map_of SCHEMA sheet = Some fs" and "length fs \<le> length row"
  shows "parseEntry row sheet = Inr (mapped fs row) \<and> map fst (mapped fs row) = map fst fs"
  using assms by (simp add: parseEntry_mapped map_fst_mapped)

theorem parseEntry_in_schema_order_witness:
  "map_of SCHEMA ''catalog'' = Some SCHEMA_catalog
   \<and> length SCHEMA_catalog = 27
   \<and> parseEntry
        [''B1'', ''Flora; Flore'', ''Smith; Jones'', '''', '''', '''', ''print'', ''2001'', '''', '''', '''',
         ''0123456789; 9780123456789'', '''', ''Q42'', '''', '''', '''', '''', ''en; fr'', ''MIT'', ''key'',
         ''Mammalia'', '''', ''US'', ''TRUE; FALSE'', '''', ''B2''] ''catalog''
       = Inr [(''id'', Str ''B1''), (''title'', Arr [''Flora'', ''Flore'']),
              (''author'', Arr [''Smith'', ''Jones'']), (''url'', Arr ['''']),
              (''fulltext_url'', Arr ['''']), (''archive_url'', Arr ['''']),
              (''entry_type'', Str ''print''), (''date'', Str ''2001''), (''publisher'', Arr ['''']),
              (''series'', Str ''''), (''ISSN'', Str ''''),
              (''ISBN'', Arr [''0123456789'', ''9780123456789'']), (''DOI'', Str ''''),
              (''QID'', Str ''Q42''), (''volume'', Str ''''), (''issue'', Str ''''), (''pages'', Str ''''),
              (''edition'', Str ''''), (''language'', Arr [''en'', ''fr'']), (''license'', Arr [''MIT'']),
              (''key_type'', Arr [''key'']), (''taxon'', Arr [''Mammalia'']), (''scope'', Arr ['''']),
              (''region'', Arr [''US'']), (''complete'', Str ''TRUE; FALSE''),
              (''target_taxa'', Arr ['''']), (''part_of'', Arr [''B2''])]"
proof -
  have sch: "map_of SCHEMA ''catalog'' = Some SCHEMA_catalog" by (simp add: SCHEMA_def)
  have len: "length SCHEMA_catalog = 27" by (simp add: SCHEMA_catalog_def)
  have m: "mapped SCHEMA_catalog
        [''B1'', ''Flora; Flore'', ''Smith; Jones'', '''', '''', '''', ''print'', ''2001'', '''', '''', '''',
         ''0123456789; 9780123456789'', '''', ''Q42'', '''', '''', '''', '''', ''en; fr'', ''MIT'', ''key'',
         ''Mammalia'', '''', ''US'', ''TRUE; FALSE'', '''', ''B2'']
       = [(''id'', Str ''B1''), (''title'', Arr [''Flora'', ''Flore'']),
              (''author'', Arr [''Smith'', ''Jones'']), (''url'', Arr ['''']),
              (''fulltext_url'', Arr ['''']), (''archive_url'', Arr ['''']),
              (''entry_type'', Str ''print''), (''date'', Str ''2001''), (''publisher'', Arr ['''']),
              (''series'', Str ''''), (''ISSN'', Str ''''),
              (''ISBN'', Arr [''0123456789'', ''9780123456789'']), (''DOI'', Str ''''),
              (''QID'', Str ''Q42''), (''volume'', Str ''''), (''issue'', Str ''''), (''pages'', Str ''''),
              (''edition'', Str ''''), (''language'', Arr [''en'', ''fr'']), (''license'', Arr [''MIT'']),
              (''key_type'', Arr [''key'']), (''taxon'', Arr [''Mammalia'']), (''scope'', Arr ['''']),
              (''region'', Arr [''US'']), (''complete'', Str ''TRUE; FALSE''),
              (''target_taxa'', Arr ['''']), (''part_of'', Arr [''B2''])]"
    by code_simp
  from parseEntry_in_schema_order[of "''catalog''" SCHEMA_catalog
        "[''B1'', ''Flora; Flore'', ''Smith; Jones'', '''', '''', '''', ''print'', ''2001'', '''', '''', '''',
         ''0123456789; 9780123456789'', '''', ''Q42'', '''', '''', '''', '''', ''en; fr'', ''MIT'', ''key'',
         ''Mammalia'', '''', ''US'', ''TRUE; FALSE'', '''', ''B2'']"] sch len m
  show ?thesis by simp
qed

section \<open>The checks on one field\<close>

lemma SCHEMA_rule_Inr:
  "map_of SCHEMA sheet = Some fs \<Longrightarrow> map_of fs field = Some r \<Longrightarrow> SCHEMA_rule sheet field p = Inr r"
  by (simp add: SCHEMA_rule_def)

lemma validateValue_conforms:
  assumes "SCHEMA_rule sheet field ''format'' = Inr r"
  shows "validateValue x entry sheet field value =
           (case format r of
              None \<Rightarrow> Inr ()
            | Some f \<Rightarrow> if conforms x f value then Inr () else Inl (Error (format_violation x f value)))"
proof (cases "format r")
  case None
  with assms show ?thesis by (simp add: validateValue_def)
next
  case (Some f)
  with assms show ?thesis
    by (cases f) (simp_all add: validateValue_def format_violation_def)
qed

lemma validateField_loop_filter:
  assumes "SCHEMA_rule sheet field ''format'' = Inr r"
  shows "validateField_loop x entry sheet field values errors =
           errors @ (case format r of
                       None \<Rightarrow> []
                     | Some f \<Rightarrow> map (format_violation x f) (filter (\<lambda>v. \<not> conforms x f v) values))"
proof (induction "values" arbitrary: errors)
  case Nil
  then show ?case by (simp split: option.splits)
next
  case (Cons v vs)
  then show ?case
    by (simp add: validateValue_conforms[OF assms] split: option.splits)
qed

text \<open>
  Claim C7: for a field of a registered sheet whose value is empty (an array is joined
  for the test): if the rule is required, the check of the field raises the one violation
  "Value(s) required but missing", whatever the cardinality rule and the format of the
  field are, and the record gets exactly one line for the field; if the rule is not
  required, the check raises nothing and the record gets no line for the field.
\<close>

theorem validateField_empty_value:
  assumes "map_of SCHEMA sheet = Some fs" and "map_of fs field = Some r"
    and "toString (get entry field) = Inr []"
  shows "validateField x entry sheet field
           = (if required r then Inl (Error ''Value(s) required but missing'') else Inr ())
         \<and> validateEntry_loop x entry sheet [field] errors
           = (if required r then errors @ [chalk_blue x field @ '': '' @ ''Value(s) required but missing'']
              else errors)"
proof -
  have vf: "validateField x entry sheet field
           = (if required r then Inl (Error ''Value(s) required but missing'') else Inr ())"
    using assms by (simp add: validateField_def SCHEMA_rule_Inr)
  then show ?thesis by simp
qed

theorem validateField_empty_value_witness:
  "map_of SCHEMA ''authors''
     = Some SCHEMA_authors
   \<and> toString (get [(''name'', Str ''''), (''full_names'', Arr [''''])] ''name'') = Inr []
   \<and> validateField sample_ext [(''name'', Str ''''), (''full_names'', Arr [''''])] ''authors'' ''name''
       = Inl (Error ''Value(s) required but missing'')
   \<and> validateEntry_loop sample_ext [(''name'', Str ''''), (''full_names'', Arr [''''])] ''authors'' [''name''] []
       = [''name: Value(s) required but missing'']
   \<and> toString (get [(''name'', Str ''''), (''full_names'', Arr [''''])] ''full_names'') = Inr []
   \<and> validateField sample_ext [(''name'', Str ''''), (''full_names'', Arr [''''])] ''authors'' ''full_names''
       = Inr ()
   \<and> validateEntry_loop sample_ext [(''name'', Str ''''), (''full_names'', Arr [''''])] ''authors'' [''full_names''] []
       = []"
  using validateField_empty_value[of "''authors''"
          SCHEMA_authors
          "''name''" "mk True (Bool False) None" "[(''name'', Str ''''), (''full_names'', Arr [''''])]"
          sample_ext "[]"]
        validateField_empty_value[of "''authors''"
          SCHEMA_authors
          "''full_names''" "mk False (Bool True) None" "[(''name'', Str ''''), (''full_names'', Arr [''''])]"
          sample_ext "[]"]
  by (simp add: SCHEMA_def SCHEMA_authors_def mk_def toString_def get_def sample_ext_def)

text \<open>
  Claim C8 says that for every non-empty field with a format the checker is applied to
  every scalar and each failing scalar contributes a message naming what was expected.
  Counterexample: the \<open>qid\<close> of the sheet \<open>authors\<close> with the value \<open>Q1; Q2\<close> does not match
  its pattern, and the only violation of the field is the cardinality violation.
\<close>

theorem format_after_cardinality_counterexample:
  "\<not> conforms sample_ext FORMATS_QID ''Q1; Q2''
   \<and> validateField sample_ext [(''name'', Str ''Smith''), (''qid'', Str ''Q1; Q2'')] ''authors'' ''qid''
       = Inl (Error ''Multiple values but only one expected'')
   \<and> validate sample_ext (''name,qid,main_full_name,full_names'' @ [NL] @ ''Smith,Q1; Q2,,x'') ''authors''
       = Inl (Error ([NL] @ ''===== Smith ====='' @ [NL] @ ''qid: Multiple values but only one expected''))"
  by code_simp

text \<open>
  Claim C8, amended: for every non-empty field of a registered sheet whose cardinality
  step raises nothing (the rule resolves without an error, and not to false on a value
  that contains the separator): if the field declares a format, the checker of its kind
  (membership in the list, the test of the pattern, or the predicate) is applied to every
  scalar of the value; each failing scalar contributes one message naming the list, the
  pattern or the predicate, and the messages are joined into the one violation of the
  field; a field without a format raises no violation.
\<close>

theorem validateField_format_check:
  assumes "map_of SCHEMA sheet = Some fs" and "map_of fs field = Some r"
    and "toString (get entry field) = Inr text" and "text \<noteq> []"
    and "(case multiple r of Check c \<Rightarrow> CHECK c entry | Bool b \<Rightarrow> Inr b) = Inr m"
    and "\<not> (m = False \<and> js_includes (get entry field) ''; '')"
  shows "validateField x entry sheet field =
           (case format r of
              None \<Rightarrow> Inr ()
            | Some f \<Rightarrow>
                (let failing = filter (\<lambda>value. \<not> conforms x f value) (scalars (get entry field))
                 in if failing = [] then Inr ()
                    else Inl (Error (join ''; '' (map (format_violation x f) failing)))))"
proof -
  have rule: "SCHEMA_rule sheet field p = Inr r" for p
    using assms(1,2) by (rule SCHEMA_rule_Inr)
  show ?thesis
  proof (cases "get entry field")
    case Undefined
    with assms(3) show ?thesis by (simp add: toString_def)
  next
    case (Str s)
    with assms rule show ?thesis
      by (auto simp: validateField_def validateValue_conforms[OF rule] split: option.splits)
  next
    case (Arr xs)
    with assms rule show ?thesis
      by (auto simp: validateField_def validateField_loop_filter[OF rule] Let_def split: option.splits)
  qed
qed

theorem validateField_format_check_witness:
  "map_of SCHEMA ''catalog'' = Some SCHEMA_catalog
   \<and> map_of SCHEMA_catalog ''language'' = Some (mk True (Bool True) (Some (Function LANGUAGE)))
   \<and> toString (get [(''language'', Arr [''xx'', ''en'', ''yy''])] ''language'') = Inr ''xx,en,yy''
   \<and> validateField sample_ext [(''language'', Arr [''xx'', ''en'', ''yy''])] ''catalog'' ''language''
       = Inl (Error (''The value '' @ [DQ] @ ''xx'' @ [DQ] @ '' does not conform to pattern: LANGUAGE''
                     @ ''; '' @ ''The value '' @ [DQ] @ ''yy'' @ [DQ] @ '' does not conform to pattern: LANGUAGE''))"
  using validateField_format_check[of "''catalog''" SCHEMA_catalog "''language''"
          "mk True (Bool True) (Some (Function LANGUAGE))" "[(''language'', Arr [''xx'', ''en'', ''yy''])]"
          "''xx,en,yy''" True sample_ext]
  by (simp add: SCHEMA_def SCHEMA_catalog_def mk_def toString_def get_def sample_ext_def format_violation_def
        js_includes_def)

section \<open>The data-dependent cardinality rules\<close>

text \<open>
  \<open>CHECK ISBN\<close> raises for every record with two or more values, whatever their lengths.
\<close>

lemma CHECK_ISBN_raises:
  "get entry ''ISBN'' = Arr xs \<Longrightarrow> 2 \<le> length xs \<Longrightarrow> CHECK ISBN entry = Inl (cannot_read ''length'')"
  by (simp add: js_length_def number_property_def)

lemma CHECK_ISBN_single:
  "get entry ''ISBN'' = Arr xs \<Longrightarrow> length xs < 2 \<Longrightarrow> CHECK ISBN entry = Inr False"
  by (simp add: js_length_def)

text \<open>
  Claim C3 says that for a record with exactly two ISBN values the cardinality check
  resolves to true precisely when one has length 10 and the other length 13, without any
  other error. In the code \<open>CHECK ISBN\<close> raises a \<open>TypeError\<close> for every record with two
  values: for the pair of lengths 10 and 13 and for the pair of lengths 10 and 10 the
  report holds that error for the field \<open>ISBN\<close>; a single value passes.
\<close>

theorem CHECK_ISBN_two_values_raises:
  "validate sample_ext
     (''id'' @ [NL] @ catalog_row ''Flora'' ''0123456789; 9780123456789'' ''en'') ''catalog''
     = Inl (Error ([NL] @ ''===== B1 ====='' @ [NL] @ ''ISBN: '' @ message (cannot_read ''length'')))
   \<and> validate sample_ext
     (''id'' @ [NL] @ catalog_row ''Flora'' ''0123456789; 0123456789'' ''en'') ''catalog''
     = Inl (Error ([NL] @ ''===== B1 ====='' @ [NL] @ ''ISBN: '' @ message (cannot_read ''length'')))
   \<and> CHECK ISBN [(''ISBN'', Arr [''0123456789'', ''9780123456789''])] = Inl (cannot_read ''length'')
   \<and> validate sample_ext (''id'' @ [NL] @ catalog_row ''Flora'' ''0123456789'' ''en'') ''catalog'' = Inr ()"
  by code_simp

text \<open>
  No piece of a split value is the separator, so the membership test on the array of a
  field with a function for its cardinality never holds; the substring test on the
  string of a field with the static \<open>false\<close> does hold when the value contains the
  separator.
\<close>

lemma split_sep_first: "split_sep (d # cs) = r # rs \<Longrightarrow> r \<noteq> [] \<Longrightarrow> hd r = d"
  by (cases cs) (auto split: if_splits list.splits)

lemma split_sep_nonempty: "split_sep s \<noteq> []"
  by (induction s rule: split_sep.induct) (auto split: list.splits)

lemma split_sep_no_separator: "''; '' \<notin> set (split_sep s)"
proof (induction s rule: split_sep.induct)
  case (1 c d cs)
  show ?case
  proof (cases "c = CHR '';'' \<and> d = CHR '' ''")
    case True
    with 1 show ?thesis by simp
  next
    case False
    obtain r rs where s: "split_sep (d # cs) = r # rs"
      using split_sep_nonempty[of "d # cs"] by (cases "split_sep (d # cs)") auto
    from 1(2)[OF False] s have rs: "''; '' \<notin> set rs" by simp
    have "c # r \<noteq> ''; ''"
    proof
      assume e: "c # r = ''; ''"
      then have "c = CHR '';''" and r: "r = '' ''" by simp_all
      with split_sep_first[OF s] have "d = CHR '' ''" by simp
      with \<open>c = CHR '';''\<close> False show False by simp
    qed
    with False s rs show ?thesis by auto
  qed
qed simp_all

lemma split_value_never_includes: "\<not> js_includes (Arr (split_sep v)) ''; ''"
  by (simp add: js_includes_def split_sep_no_separator)

lemma static_single_cardinality_violation:
  assumes "map_of SCHEMA sheet = Some fs" and "map_of fs field = Some r"
    and "multiple r = Bool False" and "get entry field = Str s" and "includes_str s ''; ''"
  shows "validateField x entry sheet field = Inl (Error ''Multiple values but only one expected'')"
proof -
  from assms(5) have "s \<noteq> []" by (cases s) (simp_all add: startsWith_def)
  with assms show ?thesis
    by (simp add: validateField_def SCHEMA_rule_Inr toString_def js_includes_def)
qed

text \<open>
  Claim C4 says that a field whose cardinality rule resolves to false, the static
  \<open>false\<close> or a function returning false, and whose raw value contains the separator gets
  the violation "Multiple values but only one expected". In the code the title of a
  record with one language has a rule that resolves to false and a raw value with the
  separator, and \<open>validate\<close> reports nothing.
\<close>

theorem title_cardinality_never_reported:
  "CHECK MULTILANG [(''title'', Arr [''Flora'', ''Flore'']), (''language'', Arr [''en''])] = Inr False
   \<and> includes_str ''Flora; Flore'' ''; ''
   \<and> validate sample_ext (''id'' @ [NL] @ catalog_row ''Flora; Flore'' '''' ''en'') ''catalog'' = Inr ()"
  by code_simp

section \<open>The report of a run\<close>

lemma validateEntry_loop_concat:
  "validateEntry_loop x entry sheet fs errors =
     errors @ map (line x)
       (concat (map (\<lambda>field. case validateField x entry sheet field of
                                Inl e \<Rightarrow> [(field, message e)]
                              | Inr u \<Rightarrow> []) fs))"
  by (induction fs arbitrary: errors) (simp_all add: line_def split: sum.splits)

lemma validate_loop_concat:
  "validate_loop x sheet rows errors = errors @ concat (map (group x sheet) rows)"
  by (induction rows arbitrary: errors) (simp_all add: group_def split: sum.splits)

lemma validate_groups:
  "validate x file sheet =
     (if concat (map (group x sheet) (parseFile file)) = [] then Inr ()
      else Inl (Error ([NL] @ join [NL, NL] (concat (map (group x sheet) (parseFile file))))))"
  by (simp add: validate_def validate_loop_concat Let_def)

text \<open>
  The check of a field of a mapped record crashes only in a cardinality function: the
  value of a field of the schema is never \<^verbatim>\<open>undefined\<close> when the row has a column for it,
  and the format check throws an \<^verbatim>\<open>Error\<close> or nothing.
\<close>

lemma stored_defined: "stored m raw \<noteq> Undefined"
  by (cases m) (simp_all add: stored_def)

lemma mapped_values:
  "(field, v) \<in> set (mapped fs row) \<Longrightarrow> \<exists>r raw. (field, r) \<in> set fs \<and> v = stored (multiple r) raw"
proof -
  assume "(field, v) \<in> set (mapped fs row)"
  then obtain p where p: "p \<in> set (zip fs row)" and f: "field = fst (fst p)"
    and v: "v = stored (multiple (snd (fst p))) (snd p)"
    by (auto simp: mapped_def)
  from p have "fst p \<in> set fs" by (metis prod.collapse set_zip_leftD)
  with f have "(field, snd (fst p)) \<in> set fs" by simp
  with v show ?thesis by blast
qed

lemma get_mapped:
  assumes "distinct (map fst fs)" and "length fs \<le> length row" and "map_of fs field = Some r"
  shows "\<exists>raw. get (mapped fs row) field = stored (multiple r) raw"
proof -
  from assms(3) have "field \<in> fst ` set fs" by (auto dest: map_of_SomeD intro: rev_image_eqI)
  then have "field \<in> set (map fst (mapped fs row))"
    using map_fst_mapped[OF assms(2)] by simp
  then have "map_of (mapped fs row) field \<noteq> None"
    by (simp add: map_of_eq_None_iff)
  then obtain v where v: "map_of (mapped fs row) field = Some v" by auto
  from map_of_SomeD[OF v] mapped_values obtain r' raw where
    r': "(field, r') \<in> set fs" and s: "v = stored (multiple r') raw" by blast
  from assms(1) r' have "map_of fs field = Some r'" by simp
  with assms(3) s v show ?thesis by (auto simp: get_def)
qed

lemma js_length_defined: "v \<noteq> Undefined \<Longrightarrow> \<exists>n. js_length v = Inr n"
  by (cases v) (simp_all add: js_length_def)

lemma SCHEMA_checks:
  "map_of SCHEMA sheet = Some fs \<Longrightarrow> map_of fs field = Some r \<Longrightarrow> multiple r = Check c
   \<Longrightarrow> fs = SCHEMA_catalog"
  by (auto simp: SCHEMA_def SCHEMA_authors_def SCHEMA_publishers_def SCHEMA_places_def mk_def
        split: if_splits)

lemma SCHEMA_catalog_fields:
  "\<exists>r. map_of SCHEMA_catalog ''language'' = Some r" "\<exists>r. map_of SCHEMA_catalog ''ISBN'' = Some r"
  by (simp_all add: SCHEMA_catalog_def)

lemma cardinality_resolves:
  assumes "map_of SCHEMA sheet = Some fs" and "length fs \<le> length row"
    and "map_of fs field = Some r"
    and "\<forall>n. js_length (get (mapped fs row) ''ISBN'') = Inr n \<longrightarrow> n < 2"
  shows "\<exists>m. (case multiple r of Check c \<Rightarrow> CHECK c (mapped fs row) | Bool b \<Rightarrow> Inr b) = Inr m"
proof (cases "multiple r")
  case (Bool b)
  then show ?thesis by simp
next
  case (Check c)
  from SCHEMA_checks[OF assms(1,3) Check] have fs: "fs = SCHEMA_catalog" .
  from SCHEMA_distinct[OF assms(1)] have d: "distinct (map fst fs)" .
  show ?thesis
  proof (cases c)
    case MULTILANG
    from SCHEMA_catalog_fields(1) fs obtain r' where "map_of fs ''language'' = Some r'" by auto
    from get_mapped[OF d assms(2) this]
    have "get (mapped fs row) ''language'' \<noteq> Undefined" by (metis stored_defined)
    from js_length_defined[OF this] Check MULTILANG show ?thesis by auto
  next
    case ISBN
    from SCHEMA_catalog_fields(2) fs obtain r' where "map_of fs ''ISBN'' = Some r'" by auto
    from get_mapped[OF d assms(2) this]
    have "get (mapped fs row) ''ISBN'' \<noteq> Undefined" by (metis stored_defined)
    from js_length_defined[OF this] obtain n where n: "js_length (get (mapped fs row) ''ISBN'') = Inr n"
      by auto
    with assms(4) have "n < 2" by simp
    with n Check ISBN show ?thesis by auto
  qed
qed

lemma validateValue_no_crash:
  "SCHEMA_rule sheet field ''format'' = Inr r \<Longrightarrow> validateValue x entry sheet field v \<noteq> Inl (TypeError t)"
  by (simp add: validateValue_conforms split: option.splits)

lemma validateField_no_crash:
  assumes "map_of SCHEMA sheet = Some fs" and "map_of fs field = Some r"
    and "get entry field \<noteq> Undefined"
    and "(case multiple r of Check c \<Rightarrow> CHECK c entry | Bool b \<Rightarrow> Inr b) = Inr m"
  shows "validateField x entry sheet field \<noteq> Inl (TypeError t)"
proof -
  have rule: "SCHEMA_rule sheet field p = Inr r" for p
    using assms(1,2) by (rule SCHEMA_rule_Inr)
  show ?thesis
  proof (cases "get entry field")
    case Undefined
    with assms(3) show ?thesis by simp
  next
    case (Str s)
    with assms(4) rule validateValue_no_crash[OF rule, of x entry s t] show ?thesis
      by (simp add: validateField_def toString_def)
  next
    case (Arr xs)
    with assms(4) rule show ?thesis
      by (simp add: validateField_def toString_def Let_def)
  qed
qed

lemma mapped_no_crash:
  assumes "map_of SCHEMA sheet = Some fs" and "length fs \<le> length row"
    and "\<forall>n. js_length (get (mapped fs row) ''ISBN'') = Inr n \<longrightarrow> n < 2"
    and "field \<in> set (map fst (mapped fs row))"
  shows "validateField x (mapped fs row) sheet field \<noteq> Inl (TypeError t)"
proof -
  from assms(4) map_fst_mapped[OF assms(2)] have "field \<in> fst ` set fs" by simp
  with SCHEMA_distinct[OF assms(1)] obtain r where r: "map_of fs field = Some r"
    by (metis domD dom_map_of_conv_image_fst)
  from get_mapped[OF SCHEMA_distinct[OF assms(1)] assms(2) r]
  have g: "get (mapped fs row) field \<noteq> Undefined" by (metis stored_defined)
  from cardinality_resolves[OF assms(1,2) r assms(3)] obtain m where
    "(case multiple r of Check c \<Rightarrow> CHECK c (mapped fs row) | Bool b \<Rightarrow> Inr b) = Inr m" by blast
  from validateField_no_crash[OF assms(1) r g this] show ?thesis .
qed

lemma violation_of_check:
  assumes "\<forall>t. validateField x entry sheet field \<noteq> Inl (TypeError t)"
  shows "(case validateField x entry sheet field of Inl e \<Rightarrow> [(field, message e)] | Inr u \<Rightarrow> [])
       = (case field_violation x sheet entry field of Some m \<Rightarrow> [(field, m)] | None \<Rightarrow> [])"
proof (cases "validateField x entry sheet field")
  case (Inr u)
  then show ?thesis by (simp add: field_violation_def)
next
  case (Inl e)
  with assms show ?thesis by (cases e) (simp_all add: field_violation_def)
qed

lemma validateEntry_violations:
  assumes "\<forall>field \<in> set (map fst entry). \<forall>t. validateField x entry sheet field \<noteq> Inl (TypeError t)"
  shows "validateEntry x entry sheet =
     (if violations x sheet entry = [] then Inr ()
      else Inl (Error (join [NL] (map (line x) (violations x sheet entry)))))"
proof -
  let ?F = "\<lambda>field. case validateField x entry sheet field of
                       Inl e \<Rightarrow> [(field, message e)] | Inr u \<Rightarrow> []"
  let ?G = "\<lambda>field. case field_violation x sheet entry field of
                       Some m \<Rightarrow> [(field, m)] | None \<Rightarrow> []"
  have eq: "?G field = ?F field" if "field \<in> set (map fst entry)" for field
  proof -
    from that assms have "\<forall>t. validateField x entry sheet field \<noteq> Inl (TypeError t)" by blast
    from violation_of_check[OF this] show ?thesis by (rule sym)
  qed
  have "map ?G (map fst entry) = map ?F (map fst entry)"
    by (rule map_cong[OF refl]) (rule eq)
  then have V: "violations x sheet entry = concat (map ?F (map fst entry))"
    by (simp only: violations_def)
  show ?thesis unfolding V
    by (simp add: validateEntry_def validateEntry_loop_concat Let_def)
qed

lemma group_mapped:
  assumes "map_of SCHEMA sheet = Some fs" and "length fs \<le> length row"
    and "\<forall>n. js_length (get (mapped fs row) ''ISBN'') = Inr n \<longrightarrow> n < 2"
  shows "group x sheet row =
           (if violations x sheet (mapped fs row) = [] then []
            else [render_group x (row, violations x sheet (mapped fs row))])"
proof -
  have "\<forall>field \<in> set (map fst (mapped fs row)). \<forall>t.
          validateField x (mapped fs row) sheet field \<noteq> Inl (TypeError t)"
    using mapped_no_crash[OF assms] by blast
  from validateEntry_violations[OF this] assms(1,2) show ?thesis
    by (simp add: group_def try_entry_def parseEntry_mapped render_group_def)
qed

lemma groups_report:
  assumes "map_of SCHEMA sheet = Some fs"
    and "\<forall>row \<in> set rows. length fs \<le> length row
           \<and> (\<forall>n. js_length (get (mapped fs row) ''ISBN'') = Inr n \<longrightarrow> n < 2)"
  shows "concat (map (group x sheet) rows) = map (render_group x) (report x sheet fs rows)"
  using assms(2)
proof (induction rows)
  case Nil
  then show ?case by (simp add: report_def)
next
  case (Cons row rows)
  then show ?case
    using group_mapped[OF assms(1), of row x] by (simp add: report_def)
qed

lemma violations_empty_iff:
  "violations x sheet entry = [] \<longleftrightarrow>
     (\<forall>field \<in> set (map fst entry). field_violation x sheet entry field = None)"
proof -
  have c: "(case v of Some m \<Rightarrow> [(field, m)] | None \<Rightarrow> []) = [] \<longleftrightarrow> v = None"
    for v :: "string option" and field :: string
    by (cases v) auto
  show ?thesis by (simp add: violations_def c)
qed

lemma report_empty_iff:
  "report x sheet fs rows = [] \<longleftrightarrow>
     (\<forall>row \<in> set rows. violations x sheet (mapped fs row) = [])"
  by (auto simp: report_def filter_empty_conv)

text \<open>
  A violation is of one of three kinds: a required value is missing, a single-valued
  field holds the separator, or some scalars of the value do not conform to the format.
\<close>

lemma CHECK_error: "CHECK c entry = Inl e \<Longrightarrow> \<exists>t. e = TypeError t"
  by (cases c)
     (auto simp: js_length_def number_property_def cannot_read_def split: jsval.splits if_splits sum.splits)

lemma field_violation_kinds:
  assumes "field_violation x sheet entry field = Some m"
  shows "\<exists>r. SCHEMA_rule sheet field ''required'' = Inr r
           \<and> ((m = ''Value(s) required but missing'' \<and> required r \<and> toString (get entry field) = Inr [])
              \<or> (m = ''Multiple values but only one expected'' \<and> js_includes (get entry field) ''; '')
              \<or> (\<exists>f. format r = Some f
                    \<and> filter (\<lambda>v. \<not> conforms x f v) (scalars (get entry field)) \<noteq> []
                    \<and> m = join ''; '' (map (format_violation x f)
                                         (filter (\<lambda>v. \<not> conforms x f v) (scalars (get entry field))))))"
proof -
  from assms have vf: "validateField x entry sheet field = Inl (Error m)"
    by (auto simp: field_violation_def split: sum.splits js_error.splits)
  then obtain r where r: "SCHEMA_rule sheet field ''required'' = Inr r"
    by (cases "SCHEMA_rule sheet field ''required''")
       (auto simp: validateField_def SCHEMA_rule_def cannot_read_def split: option.splits)
  then have rule: "SCHEMA_rule sheet field p = Inr r" for p
    by (auto simp: SCHEMA_rule_def split: option.splits)
  from vf r obtain str where t: "toString (get entry field) = Inr str"
    by (cases "get entry field") (auto simp: validateField_def toString_def cannot_read_def)
  show ?thesis
  proof (cases "str = []")
    case True
    with vf r t have "required r" and "m = ''Value(s) required but missing''"
      by (auto simp: validateField_def split: if_splits)
    with r t True show ?thesis by auto
  next
    case False
    from vf r t False obtain b where
      b: "(case multiple r of Check c \<Rightarrow> CHECK c entry | Bool b \<Rightarrow> Inr b) = Inr b"
      by (cases "case multiple r of Check c \<Rightarrow> CHECK c entry | Bool b \<Rightarrow> Inr b")
         (auto simp: validateField_def dest!: CHECK_error split: cardinality.splits)
    show ?thesis
    proof (cases "b = False \<and> js_includes (get entry field) ''; ''")
      case True
      with vf r t False b have "m = ''Multiple values but only one expected''"
        by (simp add: validateField_def)
      with r True show ?thesis by auto
    next
      case nc: False
      show ?thesis
      proof (cases "get entry field")
        case Undefined
        with t show ?thesis by (simp add: toString_def)
      next
        case (Str s)
        with vf r t False b nc rule have
          "format r \<noteq> None \<and> \<not> conforms x (the (format r)) s \<and> m = format_violation x (the (format r)) s"
          by (auto simp: validateField_def validateValue_conforms[OF rule] split: option.splits if_splits)
        with r Str show ?thesis by auto
      next
        case (Arr xs)
        with vf r t False b nc rule have
          "format r \<noteq> None \<and> filter (\<lambda>v. \<not> conforms x (the (format r)) v) xs \<noteq> []
           \<and> m = join ''; '' (map (format_violation x (the (format r)))
                                 (filter (\<lambda>v. \<not> conforms x (the (format r)) v) xs))"
          by (auto simp: validateField_def validateField_loop_filter[OF rule] Let_def
                   split: option.splits if_splits)
        with r Arr show ?thesis by auto
      qed
    qed
  qed
qed

text \<open>
  Claim C2 says that \<open>validate\<close> raises if and only if a field-level violation occurred.
  Counterexample: the data row of the input has two columns where the sheet has four
  fields; the mapper raises on the missing column, and \<open>validate\<close> raises although no
  field was checked; the record of the row filled up with empty columns has no
  violation.
\<close>

theorem short_row_counterexample:
  "parseFile (''name,qid,main_full_name,full_names'' @ [NL] @ ''Smith,Q1'') = [[''Smith'', ''Q1'']]
   \<and> parseEntry [''Smith'', ''Q1''] ''authors'' = Inl (cannot_read ''split'')
   \<and> violations sample_ext ''authors'' (mapped SCHEMA_authors [''Smith'', ''Q1'', '''', '''']) = []
   \<and> validate sample_ext (''name,qid,main_full_name,full_names'' @ [NL] @ ''Smith,Q1'') ''authors''
       = Inl (Error ([NL] @ ''===== Smith ====='' @ [NL] @ message (cannot_read ''split'')))"
  by code_simp

text \<open>
  Claim C2, amended: for every input file and registered sheet such that every tokenized
  row has at least as many columns as the sheet has fields and no record holds two or
  more ISBN values, \<open>validate\<close> raises its run-ending error if and only if the check of at
  least one field reports a field-level violation (a missing required value, a
  cardinality mismatch or a format mismatch) in some row, and returns without raising if
  and only if there is none. The error carries the whole report: for every row that has
  one, in the order of the rows, every violation of every field of its record, so a
  violation never stops the remaining fields or records from being checked.
\<close>

theorem validate_raises_iff_violation:
  assumes "map_of SCHEMA sheet = Some fs"
    and "\<forall>row \<in> set (parseFile file). length fs \<le> length row"
    and "\<forall>row \<in> set (parseFile file). \<forall>n. js_length (get (mapped fs row) ''ISBN'') = Inr n \<longrightarrow> n < 2"
  shows "validate x file sheet =
           (if report x sheet fs (parseFile file) = [] then Inr ()
            else Inl (Error (render x (report x sheet fs (parseFile file)))))
         \<and> ((\<exists>e. validate x file sheet = Inl e) \<longleftrightarrow>
             (\<exists>row \<in> set (parseFile file). \<exists>field \<in> set (map fst fs).
                \<exists>m. field_violation x sheet (mapped fs row) field = Some m))
         \<and> (validate x file sheet = Inr () \<longleftrightarrow>
             (\<forall>row \<in> set (parseFile file). \<forall>field \<in> set (map fst fs).
                field_violation x sheet (mapped fs row) field = None))"
proof -
  let ?rows = "parseFile file"
  from assms(2,3) have hyp: "\<forall>row \<in> set ?rows. length fs \<le> length row
           \<and> (\<forall>n. js_length (get (mapped fs row) ''ISBN'') = Inr n \<longrightarrow> n < 2)"
    by blast
  have v: "validate x file sheet =
           (if report x sheet fs ?rows = [] then Inr ()
            else Inl (Error (render x (report x sheet fs ?rows))))"
    by (simp add: validate_groups groups_report[OF assms(1) hyp] render_def)
  have keys: "map fst (mapped fs row) = map fst fs" if "row \<in> set ?rows" for row
    using that assms(2) by (simp add: map_fst_mapped)
  have e: "report x sheet fs ?rows = [] \<longleftrightarrow>
             (\<forall>row \<in> set ?rows. \<forall>field \<in> set (map fst fs).
                field_violation x sheet (mapped fs row) field = None)"
    unfolding report_empty_iff violations_empty_iff using keys by simp
  have ok: "validate x file sheet = Inr () \<longleftrightarrow> report x sheet fs ?rows = []"
    using v by simp
  have bad: "(\<exists>e. validate x file sheet = Inl e) \<longleftrightarrow> report x sheet fs ?rows \<noteq> []"
    using v by simp
  have ne: "(\<exists>m. w = Some m) \<longleftrightarrow> w \<noteq> None" for w :: "string option"
    by (cases w) auto
  from v ok bad e ne show ?thesis by (simp only:) blast
qed

theorem validate_raises_iff_violation_witness:
  "map_of SCHEMA ''catalog'' = Some SCHEMA_catalog
   \<and> length SCHEMA_catalog = 27
   \<and> map length (parseFile (''id'' @ [NL] @ catalog_row ''Flora'' ''0123456789'' ''en'' @ [NL]
                              @ catalog_row '''' ''012345678X'' ''xx; en'')) = [27, 27]
   \<and> map (\<lambda>row. js_length (get (mapped SCHEMA_catalog row) ''ISBN''))
        (parseFile (''id'' @ [NL] @ catalog_row ''Flora'' ''0123456789'' ''en'' @ [NL]
                    @ catalog_row '''' ''012345678X'' ''xx; en'')) = [Inr 1, Inr 1]
   \<and> validate sample_ext (''id'' @ [NL] @ catalog_row ''Flora'' ''0123456789'' ''en'' @ [NL]
                           @ catalog_row '''' ''012345678X'' ''xx; en'') ''catalog''
       = Inl (Error ([NL] @ ''===== B1 ====='' @ [NL] @ ''title: Value(s) required but missing'' @ [NL]
                      @ ''language: The value '' @ [DQ] @ ''xx'' @ [DQ]
                      @ '' does not conform to pattern: LANGUAGE''))"
proof -
  let ?file = "''id'' @ [NL] @ catalog_row ''Flora'' ''0123456789'' ''en'' @ [NL]
               @ catalog_row '''' ''012345678X'' ''xx; en''"
  let ?r1 = "[''B1'', ''Flora'', ''Smith'', '''', '''', '''', ''print'', '''', '''', '''', '''',
              ''0123456789'', '''', ''Q42'', '''', '''', '''', '''', ''en'', ''MIT'', ''key'',
              ''Mammalia'', '''', ''US'', '''', '''', ''B2'']"
  let ?r2 = "[''B1'', '''', ''Smith'', '''', '''', '''', ''print'', '''', '''', '''', '''',
              ''012345678X'', '''', ''Q42'', '''', '''', '''', '''', ''xx; en'', ''MIT'', ''key'',
              ''Mammalia'', '''', ''US'', '''', '''', ''B2'']"
  have sch: "map_of SCHEMA ''catalog'' = Some SCHEMA_catalog" by (simp add: SCHEMA_def)
  have l27: "length SCHEMA_catalog = 27" by (simp add: SCHEMA_catalog_def)
  have rows: "parseFile ?file = [?r1, ?r2]" by code_simp
  have len: "\<forall>row \<in> set (parseFile ?file). length SCHEMA_catalog \<le> length row"
    unfolding rows by (simp add: l27)
  have i1: "js_length (get (mapped SCHEMA_catalog ?r1) ''ISBN'') = Inr 1" by code_simp
  have i2: "js_length (get (mapped SCHEMA_catalog ?r2) ''ISBN'') = Inr 1" by code_simp
  have isbn: "\<forall>row \<in> set (parseFile ?file).
                \<forall>n. js_length (get (mapped SCHEMA_catalog row) ''ISBN'') = Inr n \<longrightarrow> n < 2"
    unfolding rows using i1 i2 by simp
  have rep: "report sample_ext ''catalog'' SCHEMA_catalog [?r1, ?r2]
      = [(?r2, [(''title'', ''Value(s) required but missing''),
                (''language'', ''The value '' @ [DQ] @ ''xx'' @ [DQ] @ '' does not conform to pattern: LANGUAGE'')])]"
    by code_simp
  have ren: "render sample_ext
       [(?r2, [(''title'', ''Value(s) required but missing''),
               (''language'', ''The value '' @ [DQ] @ ''xx'' @ [DQ] @ '' does not conform to pattern: LANGUAGE'')])]
      = [NL] @ ''===== B1 ====='' @ [NL] @ ''title: Value(s) required but missing'' @ [NL]
        @ ''language: The value '' @ [DQ] @ ''xx'' @ [DQ] @ '' does not conform to pattern: LANGUAGE''"
    by code_simp
  from validate_raises_iff_violation[OF sch len isbn, of sample_ext] sch l27 rows i1 i2 rep ren
  show ?thesis by simp
qed

lemma hd_update: "al \<noteq> [] \<Longrightarrow> fst (hd al) \<noteq> k \<Longrightarrow> hd (AList.update k v al) = hd al \<and> AList.update k v al \<noteq> []"
  by (cases al) auto

lemma parseEntry_loop_hd:
  "parseEntry_loop fs row acc = Inr e \<Longrightarrow> acc \<noteq> [] \<Longrightarrow> fst (hd acc) \<notin> fst ` set fs
   \<Longrightarrow> e \<noteq> [] \<and> hd e = hd acc"
proof (induction fs arbitrary: row acc)
  case Nil
  then show ?case by simp
next
  case (Cons p fs)
  obtain field r where p: "p = (field, r)" by (cases p)
  from Cons.prems(3) p have ne: "fst (hd acc) \<noteq> field" and rest: "fst (hd acc) \<notin> fst ` set fs"
    by auto
  from Cons.prems(1) p obtain v where
    step: "parseEntry_loop fs (tl row) (AList.update field v acc) = Inr e"
    by (auto split: if_splits list.splits)
  from hd_update[OF Cons.prems(2) ne, of v]
  have h: "hd (AList.update field v acc) = hd acc" and n: "AList.update field v acc \<noteq> []"
    by simp_all
  from Cons.IH[OF step n] h rest show ?case by simp
qed

lemma SCHEMA_first_single:
  "map_of SCHEMA sheet = Some fs \<Longrightarrow> \<exists>f r fs'. fs = (f, r) # fs' \<and> \<not> truthy (multiple r)"
  by (auto simp: SCHEMA_def SCHEMA_catalog_def SCHEMA_authors_def SCHEMA_publishers_def
        SCHEMA_places_def mk_def split: if_splits)

lemma parseEntry_first_field:
  assumes "map_of SCHEMA sheet = Some fs" and "parseEntry (c # cs) sheet = Inr entry"
  shows "entry \<noteq> [] \<and> hd entry = (fst (hd fs), Str c)"
proof -
  from SCHEMA_first_single[OF assms(1)] obtain f r fs' where
    fs: "fs = (f, r) # fs'" and single: "\<not> truthy (multiple r)" by blast
  from SCHEMA_distinct[OF assms(1)] fs have fresh: "f \<notin> fst ` set fs'" by auto
  from assms fs single have "parseEntry_loop fs' cs [(f, Str c)] = Inr entry"
    by (simp add: parseEntry_def)
  from parseEntry_loop_hd[OF this] fresh fs show ?thesis by simp
qed

text \<open>
  Claim C9: for every input file and sheet, the groups of the report are the entries of
  the rows that raise, in the order of the rows of the input; the heading of a group
  holds the first column of its row, which for a registered sheet is the value of the
  first field of the record.
\<close>

theorem report_groups_in_row_order:
  "validate_loop x sheet rows [] = concat (map (group x sheet) rows)
   \<and> validate x file sheet =
       (if concat (map (group x sheet) (parseFile file)) = [] then Inr ()
        else Inl (Error ([NL] @ join [NL, NL] (concat (map (group x sheet) (parseFile file))))))
   \<and> heading x (c # cs) = chalk_black_bgWhite x (''===== '' @ c @ '' ====='')
   \<and> (map_of SCHEMA sheet = Some fs \<longrightarrow> parseEntry (c # cs) sheet = Inr entry
        \<longrightarrow> entry \<noteq> [] \<and> hd entry = (fst (hd fs), Str c))"
  using parseEntry_first_field[of sheet fs c cs entry]
  by (simp add: validate_loop_concat validate_groups heading_def)

theorem report_groups_in_row_order_witness:
  "validate_loop sample_ext ''authors'' [[''Smith'', ''Q1'', '''', ''x''], ['''', ''Q2'', '''', ''y''], [''Jones'', ''bad'', '''', ''z'']] []
     = [''=====  ====='' @ [NL] @ ''name: Value(s) required but missing'',
        ''===== Jones ====='' @ [NL] @ ''qid: The value '' @ [DQ] @ ''bad'' @ [DQ] @ '' does not conform to pattern: ^Q[1-9][0-9]*$'']
   \<and> map_of SCHEMA ''authors'' = Some SCHEMA_authors
   \<and> parseEntry [''Jones'', ''bad'', '''', ''z''] ''authors''
       = Inr [(''name'', Str ''Jones''), (''qid'', Str ''bad''), (''main_full_name'', Str ''''), (''full_names'', Arr [''z''])]
   \<and> hd [(''name'', Str ''Jones''), (''qid'', Str ''bad''), (''main_full_name'', Str ''''), (''full_names'', Arr [''z''])]
       = (fst (hd SCHEMA_authors), Str ''Jones'')"
proof -
  have sch: "map_of SCHEMA ''authors'' = Some SCHEMA_authors" by (simp add: SCHEMA_def)
  have pe: "parseEntry [''Jones'', ''bad'', '''', ''z''] ''authors''
       = Inr [(''name'', Str ''Jones''), (''qid'', Str ''bad''), (''main_full_name'', Str ''''), (''full_names'', Arr [''z''])]"
    by code_simp
  have g: "concat (map (group sample_ext ''authors'') [[''Smith'', ''Q1'', '''', ''x''], ['''', ''Q2'', '''', ''y''], [''Jones'', ''bad'', '''', ''z'']])
     = [''=====  ====='' @ [NL] @ ''name: Value(s) required but missing'',
        ''===== Jones ====='' @ [NL] @ ''qid: The value '' @ [DQ] @ ''bad'' @ [DQ] @ '' does not conform to pattern: ^Q[1-9][0-9]*$'']"
    by code_simp
  from report_groups_in_row_order[of sample_ext "''authors''"
         "[[''Smith'', ''Q1'', '''', ''x''], ['''', ''Q2'', '''', ''y''], [''Jones'', ''bad'', '''', ''z'']]"
         "[]" "''Jones''" "[''bad'', '''', ''z'']" SCHEMA_authors
         "[(''name'', Str ''Jones''), (''qid'', Str ''bad''), (''main_full_name'', Str ''''), (''full_names'', Arr [''z''])]"]
       sch pe g
  show ?thesis by simp
qed

section \<open>The header row\<close>

lemma match_g_step:
  "exec s = (m, r) \<Longrightarrow> m \<noteq> [] \<Longrightarrow> match_g s = m # match_g r"
  by (subst match_g.simps) simp

lemma match_g_Nil: "match_g [] = [[]]"
  by (subst match_g.simps) (simp add: exec_def unquoted_def)

lemma match_g_nonempty: "match_g s \<noteq> []"
  by (subst match_g.simps) (simp split: prod.splits list.splits)

lemma unquoted_run:
  assumes "\<forall>c \<in> set a. c \<noteq> CHR '','' \<and> c \<noteq> NL" and "d = CHR '','' \<or> d = NL"
  shows "unquoted (a @ d # b) = (a @ [d], b)"
proof -
  let ?p = "\<lambda>c. c \<noteq> CHR '','' \<and> c \<noteq> NL"
  from assms have t: "takeWhile ?p (a @ d # b) = a"
    by (auto simp: takeWhile_append2)
  from assms have dr: "dropWhile ?p (a @ d # b) = d # b"
    by (auto simp: dropWhile_append2)
  show ?thesis by (simp add: unquoted_def t dr)
qed

lemma exec_unquoted: "s = [] \<or> hd s \<noteq> DQ \<Longrightarrow> exec s = unquoted s"
  by (cases s) (simp_all add: exec_def)

lemma exec_run:
  assumes "\<forall>c \<in> set a. c \<noteq> CHR '','' \<and> c \<noteq> NL \<and> c \<noteq> DQ" and "d = CHR '','' \<or> d = NL"
  shows "exec (a @ d # b) = (a @ [d], b)"
proof -
  from assms have "hd (a @ d # b) \<noteq> DQ" by (cases a) auto
  then have "exec (a @ d # b) = unquoted (a @ d # b)" by (simp add: exec_unquoted)
  with assms show ?thesis by (simp add: unquoted_run)
qed

lemma reducer_last:
  "reducer (xs @ [x]) v =
     xs @ (if endsWith_nl v then [x @ [unquote (strip_terminator v)], []]
           else [x @ [unquote (strip_terminator v)]])"
  by (simp add: reducer_def Let_def nth_append list_update_append)

lemma foldl_reducer_prefix:
  "foldl reducer (pre @ xs @ [x]) vs = pre @ foldl reducer (xs @ [x]) vs"
proof (induction vs arbitrary: xs x)
  case Nil
  then show ?case by simp
next
  case (Cons v vs)
  have "reducer (pre @ xs @ [x]) v = pre @ reducer (xs @ [x]) v"
    using reducer_last[of "pre @ xs" x v] reducer_last[of xs x v] by simp
  moreover obtain ys y where "reducer (xs @ [x]) v = ys @ [y]"
    using reducer_last[of xs x v] by (cases "endsWith_nl v") auto
  ultimately show ?case using Cons.IH[of ys y] by simp
qed

lemma exec_nonempty: "s \<noteq> [] \<Longrightarrow> exec s = (m, r) \<Longrightarrow> m \<noteq> []"
proof -
  assume s: "s \<noteq> []" and e: "exec s = (m, r)"
  have u: "fst (unquoted s) \<noteq> []"
  proof (cases "dropWhile (\<lambda>c. c \<noteq> CHR '','' \<and> c \<noteq> NL) s")
    case Nil
    then have t: "takeWhile (\<lambda>c. c \<noteq> CHR '','' \<and> c \<noteq> NL) s = s"
      by (metis append_Nil2 takeWhile_dropWhile_id)
    from s show ?thesis unfolding unquoted_def Let_def Nil t by simp
  next
    case (Cons d ds)
    show ?thesis unfolding unquoted_def Let_def Cons by simp
  qed
  from s e u show ?thesis
    by (cases s) (auto simp: exec_def split: if_splits option.splits)
qed

lemma one_line_row_step:
  "exec s = (m, r) \<Longrightarrow> m \<noteq> [] \<Longrightarrow>
     one_line_row s \<longleftrightarrow> NL \<notin> set (butlast m) \<and> (endsWith_nl m \<or> one_line_row r)"
  by (subst one_line_row.simps) auto

lemma first_row_fold:
  assumes "NL \<notin> set h" and "one_line_row (h @ NL # rest)"
  shows "\<exists>row'. foldl reducer (xs @ [x]) (butlast (match_g (h @ NL # rest)))
                 = foldl reducer (xs @ [row', []]) (butlast (match_g rest))"
  using assms
proof (induction "length h" arbitrary: h x rule: less_induct)
  case less
  obtain m r where e: "exec (h @ NL # rest) = (m, r)" by (cases "exec (h @ NL # rest)")
  from exec_nonempty[OF _ e] have m: "m \<noteq> []" by simp
  from exec_append[OF e] have s: "h @ NL # rest = m @ r" .
  from one_line_row_step[OF e m] less.prems(2)
  have inner: "NL \<notin> set (butlast m)" and next_row: "endsWith_nl m \<or> one_line_row r" by simp_all
  have mg: "match_g (h @ NL # rest) = m # match_g r" using match_g_step[OF e m] .
  from s consider us where "m = h @ NL # us" "rest = us @ r" | us where "h = m @ us" "r = us @ NL # rest"
    by (auto simp: append_eq_append_conv2 Cons_eq_append_conv)
  then show ?case
  proof cases
    case 1
    have "us = []"
    proof (rule ccontr)
      assume "us \<noteq> []"
      then have "butlast m = h @ NL # butlast us" using 1(1) by (simp add: butlast_append)
      with inner show False by simp
    qed
    with 1 have m1: "m = h @ [NL]" and r1: "r = rest" by simp_all
    have red: "reducer (xs @ [x]) m = xs @ [x @ [unquote (strip_terminator m)], []]"
      using m1 by (simp add: reducer_last endsWith_nl_def)
    show ?thesis
      by (rule exI[of _ "x @ [unquote (strip_terminator m)]"])
         (simp add: mg r1 match_g_nonempty red)
  next
    case 2
    from 2(1) less.prems(1) have nm: "NL \<notin> set m" and nus: "NL \<notin> set us" by auto
    from nm m have ne: "\<not> endsWith_nl m" by (metis endsWith_nl_def last_in_set)
    with next_row 2(2) have olr: "one_line_row (us @ NL # rest)" by simp
    have len: "length us < length h" using 2(1) m by simp
    have red: "reducer (xs @ [x]) m = xs @ [x @ [unquote (strip_terminator m)]]"
      using ne by (simp add: reducer_last)
    from less.hyps[OF len nus olr, of "x @ [unquote (strip_terminator m)]"]
    show ?thesis by (simp add: mg 2(2) match_g_nonempty red)
  qed
qed

lemma all_rows_first_row:
  assumes "NL \<notin> set h" and "one_line_row (h @ NL # rest)"
  shows "\<exists>row'. all_rows (h @ NL # rest) = row' # all_rows rest"
proof -
  from first_row_fold[OF assms, of "[]" "[]"] obtain row' where
    "foldl reducer [[]] (butlast (match_g (h @ NL # rest)))
       = foldl reducer [row', []] (butlast (match_g rest))" by auto
  moreover have "foldl reducer ([row'] @ [] @ [[]]) (butlast (match_g rest))
       = [row'] @ foldl reducer ([] @ [[]]) (butlast (match_g rest))"
    by (rule foldl_reducer_prefix)
  ultimately show ?thesis by (simp add: all_rows_def)
qed

lemma quote_free_one_line_row:
  assumes "NL \<notin> set h" and "DQ \<notin> set h"
  shows "one_line_row (h @ NL # rest)"
  using assms
proof (induction "length h" arbitrary: h rule: less_induct)
  case less
  show ?case
  proof (cases "CHR '','' \<in> set h")
    case False
    with less.prems have e: "exec (h @ NL # rest) = (h @ [NL], rest)"
      by (intro exec_run) auto
    from less.prems(1) show ?thesis
      by (simp add: one_line_row_step[OF e] endsWith_nl_def)
  next
    case True
    then obtain a b where h: "h = a @ CHR '','' # b" and a: "CHR '','' \<notin> set a"
      by (meson split_list_first)
    from less.prems h have nb: "NL \<notin> set b" "DQ \<notin> set b" and na: "NL \<notin> set a" by auto
    from less.prems h a have e: "exec (a @ CHR '','' # (b @ NL # rest)) = (a @ [CHR '',''], b @ NL # rest)"
      by (intro exec_run) auto
    have len: "length b < length h" using h by simp
    from less.hyps[OF len nb] na show ?thesis
      unfolding h by (simp add: one_line_row_step[OF e] endsWith_nl_def)
  qed
qed

lemma all_rows_header:
  assumes "NL \<notin> set h" and "DQ \<notin> set h"
  shows "\<exists>row'. all_rows (h @ NL # rest) = row' # all_rows rest"
  using all_rows_first_row[OF assms(1) quote_free_one_line_row[OF assms]] .

lemma exec_subset: "exec s = (m, r) \<Longrightarrow> set m \<subseteq> set s \<and> set r \<subseteq> set s"
  by (drule exec_append) auto

lemma match_g_subset: "m \<in> set (match_g s) \<Longrightarrow> set m \<subseteq> set s"
proof (induction "length s" arbitrary: s rule: less_induct)
  case less
  obtain m0 r where e: "exec s = (m0, r)" by (cases "exec s")
  from exec_append[OF e] have s: "s = m0 @ r" .
  show ?case
  proof (cases "m0 = []")
    case True
    show ?thesis
    proof (cases r)
      case Nil
      with True e less.prems show ?thesis by (subst (asm) match_g.simps) simp
    next
      case (Cons c r')
      with True e less.prems have "m = [] \<or> m \<in> set (match_g r')"
        by (subst (asm) match_g.simps) auto
      moreover have "length r' < length s" using s Cons by simp
      ultimately show ?thesis using less.hyps[of r'] s Cons by auto
    qed
  next
    case False
    with e less.prems have "m = m0 \<or> m \<in> set (match_g r)"
      by (subst (asm) match_g.simps) auto
    moreover have "length r < length s" using s False by simp
    ultimately show ?thesis using less.hyps[of r] s by auto
  qed
qed

lemma foldl_reducer_length:
  "\<forall>v \<in> set vs. \<not> endsWith_nl v \<Longrightarrow> length (foldl reducer (xs @ [x]) vs) = Suc (length xs)"
proof (induction vs arbitrary: x)
  case Nil
  then show ?case by simp
next
  case (Cons v vs)
  then show ?case by (simp add: reducer_last)
qed

lemma single_line_no_rows:
  assumes "NL \<notin> set input"
  shows "drop 1 (all_rows input) = []"
proof -
  have "\<not> endsWith_nl v" if "v \<in> set (butlast (match_g input))" for v
  proof
    assume "endsWith_nl v"
    then have "NL \<in> set v" by (metis endsWith_nl_def last_in_set)
    moreover from that have "v \<in> set (match_g input)" by (rule in_set_butlastD)
    ultimately show False using match_g_subset[of v input] assms by auto
  qed
  then have "length (foldl reducer ([] @ [[]]) (butlast (match_g input))) = Suc 0"
    using foldl_reducer_length[of "butlast (match_g input)" "[]" "[]"] by simp
  then show ?thesis by (simp add: all_rows_def)
qed

text \<open>
  Claim C10 says that for every input text the rows returned start at the second line
  of the input. Counterexample: the first field of the input is quoted and holds a
  newline; the rows returned start at the third line, and the second line is not
  among them.
\<close>

theorem quoted_header_counterexample:
  "parseFile ([DQ] @ ''a'' @ [NL] @ ''b'' @ [DQ] @ [NL] @ ''c'') = [[''c'']]
   \<and> all_rows (''b'' @ [DQ] @ [NL] @ ''c'') = [[''b'' @ [DQ]], [''c'']]"
  by code_simp

text \<open>
  Claim C10, amended: for every input text in which no field that starts on the first
  line of the trimmed input holds a newline (only a quoted field can hold one; a first
  line without a double quote has no such field), the tokenizer leaves the first line
  out of its result: the rows returned are the rows of the text after the first newline,
  so the header line is never mapped or validated. An input that is one line after
  trimming (or only white space) gives no rows, and \<open>validate\<close> returns without a report
  for any sheet.
\<close>

theorem first_line_dropped:
  "(trim file = h @ NL # rest \<and> NL \<notin> set h \<and> one_line_row (trim file)
      \<longrightarrow> parseFile file = all_rows rest)
   \<and> (NL \<notin> set h \<and> DQ \<notin> set h \<longrightarrow> one_line_row (h @ NL # rest))
   \<and> (NL \<notin> set (trim file) \<longrightarrow> parseFile file = [] \<and> validate x file sheet = Inr ())"
proof -
  have first: "parseFile file = all_rows rest"
    if a: "trim file = h @ NL # rest \<and> NL \<notin> set h \<and> one_line_row (trim file)"
  proof -
    from a obtain row' where "all_rows (h @ NL # rest) = row' # all_rows rest"
      using all_rows_first_row[of h rest] by auto
    with a show ?thesis by (simp add: parseFile_def)
  qed
  have free: "one_line_row (h @ NL # rest)" if "NL \<notin> set h \<and> DQ \<notin> set h"
    using that quote_free_one_line_row[of h rest] by blast
  have single: "parseFile file = [] \<and> validate x file sheet = Inr ()"
    if n: "NL \<notin> set (trim file)"
  proof -
    from n have "parseFile file = []" unfolding parseFile_def by (rule single_line_no_rows)
    then show ?thesis by (simp add: validate_def)
  qed
  from first free single show ?thesis by blast
qed

theorem first_line_dropped_witness:
  "trim (''  '' @ [DQ] @ ''id'' @ [DQ] @ '','' @ [DQ] @ ''na,me'' @ [DQ] @ [NL] @ ''B1,Flora'' @ [NL] @ ''B2,Fauna'' @ [NL])
     = ([DQ] @ ''id'' @ [DQ] @ '','' @ [DQ] @ ''na,me'' @ [DQ]) @ NL # ''B1,Flora'' @ [NL] @ ''B2,Fauna''
   \<and> one_line_row (([DQ] @ ''id'' @ [DQ] @ '','' @ [DQ] @ ''na,me'' @ [DQ]) @ NL # ''B1,Flora'' @ [NL] @ ''B2,Fauna'')
   \<and> parseFile (''  '' @ [DQ] @ ''id'' @ [DQ] @ '','' @ [DQ] @ ''na,me'' @ [DQ] @ [NL] @ ''B1,Flora'' @ [NL] @ ''B2,Fauna'' @ [NL])
       = [[''B1'', ''Flora''], [''B2'', ''Fauna'']]
   \<and> one_line_row (''id,title'' @ NL # ''B1,Flora'')
   \<and> trim (''id,title '' @ [NL]) = ''id,title''
   \<and> parseFile (''id,title '' @ [NL]) = []
   \<and> validate sample_ext (''id,title '' @ [NL]) ''catalog'' = Inr ()"
proof -
  let ?file = "''  '' @ [DQ] @ ''id'' @ [DQ] @ '','' @ [DQ] @ ''na,me'' @ [DQ] @ [NL] @ ''B1,Flora'' @ [NL] @ ''B2,Fauna'' @ [NL]"
  let ?h = "[DQ] @ ''id'' @ [DQ] @ '','' @ [DQ] @ ''na,me'' @ [DQ]"
  let ?rest = "''B1,Flora'' @ [NL] @ ''B2,Fauna''"
  have t1: "trim ?file = ?h @ NL # ?rest" by code_simp
  have o1: "one_line_row (?h @ NL # ?rest)" by code_simp
  have n1: "NL \<notin> set ?h" by simp
  have t2: "trim (''id,title '' @ [NL]) = ''id,title''" by code_simp
  have r: "all_rows ?rest = [[''B1'', ''Flora''], [''B2'', ''Fauna'']]" by code_simp
  from first_line_dropped[of ?file ?h ?rest sample_ext "''catalog''", THEN conjunct1]
       first_line_dropped[of "[]" "''id,title''" "''B1,Flora''" sample_ext "''catalog''", THEN conjunct2, THEN conjunct1]
       first_line_dropped[of "''id,title '' @ [NL]" "[]" "[]" sample_ext "''catalog''", THEN conjunct2, THEN conjunct2]
       t1 o1 n1 t2 r
  show ?thesis by simp
qed

section \<open>Quoted fields\<close>

text \<open>
  What the tokenizer makes of a quoted field on the second line of a file: the text
  itself when the text is empty or holds a character that is not a quote; one quote less
  when the text is made of quotes only. A field that does not start with a quote comes
  out unchanged.
\<close>

lemma escape_simps:
  "escape [] = []"
  "escape (DQ # t) = DQ # DQ # escape t"
  "c \<noteq> DQ \<Longrightarrow> escape (c # t) = c # escape t"
  by (simp_all add: escape_def)

lemma replace_quotes_Cons:
  "c \<noteq> DQ \<Longrightarrow> replace_quotes (c # s) = c # replace_quotes s"
  by (cases s) simp_all

lemma replace_quotes_escape: "replace_quotes (escape u @ [DQ]) = u @ [DQ]"
proof (induction u)
  case Nil
  then show ?case by (simp add: escape_simps)
next
  case (Cons c u)
  then show ?case
    by (cases "c = DQ") (simp_all add: escape_simps replace_quotes_Cons)
qed

lemma replace_quotes_quote_field:
  "\<exists>c \<in> set t. c \<noteq> DQ \<Longrightarrow> replace_quotes (quote_field t) = DQ # t @ [DQ]"
proof (induction t)
  case Nil
  then show ?case by simp
next
  case (Cons c t)
  show ?case
  proof (cases "c = DQ")
    case True
    with Cons.prems have "\<exists>c \<in> set t. c \<noteq> DQ" by simp
    from Cons.IH[OF this] True show ?thesis
      by (simp add: quote_field_def escape_simps)
  next
    case False
    then have "replace_quotes (quote_field (c # t)) = DQ # c # replace_quotes (escape t @ [DQ])"
      by (simp add: quote_field_def escape_simps replace_quotes_Cons)
    then show ?thesis by (simp add: replace_quotes_escape)
  qed
qed

lemma replace_quotes_replicate:
  "replace_quotes (replicate (2 * k) DQ) = replicate k DQ"
  by (induction k) simp_all

lemma escape_replicate: "escape (replicate n DQ) = replicate (2 * n) DQ"
  by (induction n) (simp_all add: escape_simps)

lemma unquote_quote_field:
  "t = [] \<or> (\<exists>c \<in> set t. c \<noteq> DQ) \<Longrightarrow> unquote (quote_field t) = t"
proof (cases "t = []")
  case True
  then show ?thesis
    by (simp add: unquote_def quote_field_def escape_simps startsWith_def slice_1_m1_def)
next
  case False
  assume "t = [] \<or> (\<exists>c \<in> set t. c \<noteq> DQ)"
  with False have "\<exists>c \<in> set t. c \<noteq> DQ" by simp
  from replace_quotes_quote_field[OF this] show ?thesis
    by (simp add: unquote_def startsWith_def slice_1_m1_def quote_field_def)
qed

lemma unquote_only_quotes:
  "unquote (quote_field (replicate (Suc n) DQ)) = replicate n DQ"
proof -
  have "escape (replicate (Suc n) DQ) = replicate (2 * Suc n) DQ"
    by (rule escape_replicate)
  then have "quote_field (replicate (Suc n) DQ) = DQ # replicate (2 * Suc n) DQ @ [DQ]"
    by (simp only: quote_field_def)
  also have "\<dots> = replicate (2 * (n + 2)) DQ"
    by (simp add: replicate_append_same)
  finally have q: "quote_field (replicate (Suc n) DQ) = replicate (2 * (n + 2)) DQ" .
  have r: "replace_quotes (quote_field (replicate (Suc n) DQ)) = replicate (n + 2) DQ"
    unfolding q by (rule replace_quotes_replicate)
  have s: "startsWith (quote_field (replicate (Suc n) DQ)) [DQ]"
    by (simp add: startsWith_def quote_field_def)
  have "slice_1_m1 (replicate (n + 2) DQ) = butlast (replicate (Suc n) DQ)"
    by (simp add: slice_1_m1_def)
  also have "\<dots> = butlast (replicate n DQ @ [DQ])"
    by (simp only: replicate_append_same replicate_Suc)
  also have "\<dots> = replicate n DQ" by simp
  finally show ?thesis using r s by (simp add: unquote_def)
qed

lemma quoted_escape:
  "quoted (escape t @ [DQ]) = Some (escape t @ [DQ], [])"
  by (induction t) (simp_all add: escape_def)

lemma quoted_escape_terminated:
  "c = CHR '','' \<or> c = NL \<Longrightarrow> quoted (escape t @ DQ # c # rest) = Some (escape t @ [DQ, c], rest)"
  by (induction t) (auto simp: escape_def)

lemma exec_quote_field: "exec (quote_field t) = (quote_field t, [])"
  by (simp add: exec_def quote_field_def quoted_escape)

lemma exec_quote_field_terminated:
  "c = CHR '','' \<or> c = NL \<Longrightarrow> exec (quote_field t @ c # rest) = (quote_field t @ [c], rest)"
  by (simp add: exec_def quote_field_def quoted_escape_terminated)

lemma trim_id: "s \<noteq> [] \<Longrightarrow> \<not> is_space (hd s) \<Longrightarrow> \<not> is_space (last s) \<Longrightarrow> trim s = s"
proof -
  assume s: "s \<noteq> []" and h: "\<not> is_space (hd s)" and l: "\<not> is_space (last s)"
  from s h have d: "dropWhile is_space s = s" by (cases s) simp_all
  from s l have "dropWhile is_space (rev s) = rev s"
    by (cases "rev s") (simp_all add: last_rev[symmetric] hd_rev)
  with d show ?thesis by (simp add: trim_def)
qed

lemma all_rows_single:
  assumes "exec s = (s, [])" and "s \<noteq> []" and "last s \<noteq> NL" and "last s \<noteq> CHR '',''"
  shows "all_rows s = [[unquote s]]"
proof -
  from match_g_step[OF assms(1,2)] have m: "match_g s = [s, []]" by (simp add: match_g_Nil)
  from assms have "reducer ([] @ [[]]) s = [[unquote s]]"
    unfolding reducer_last by (simp add: endsWith_nl_def strip_terminator_def)
  with m show ?thesis by (simp add: all_rows_def)
qed

lemma parseFile_second_line:
  assumes "h \<noteq> []" and "\<not> is_space (hd h)" and "NL \<notin> set h" and "DQ \<notin> set h"
    and "s \<noteq> []" and "\<not> is_space (last s)"
  shows "parseFile (h @ NL # s) = all_rows s"
proof -
  from assms have "trim (h @ NL # s) = h @ NL # s"
    by (intro trim_id) simp_all
  moreover obtain row' where "all_rows (h @ NL # s) = row' # all_rows s"
    using all_rows_header[OF assms(3,4), of s] by blast
  ultimately show ?thesis by (simp add: parseFile_def)
qed

lemma parseFile_quote_field:
  assumes "h \<noteq> []" and "\<not> is_space (hd h)" and "NL \<notin> set h" and "DQ \<notin> set h"
  shows "parseFile (h @ NL # quote_field t) = [[unquote (quote_field t)]]"
proof -
  have l: "last (quote_field t) = DQ" by (simp add: quote_field_def)
  have n: "quote_field t \<noteq> []" by (simp add: quote_field_def)
  have "parseFile (h @ NL # quote_field t) = all_rows (quote_field t)"
    using assms n l by (intro parseFile_second_line) (simp_all add: is_space_def)
  also have "\<dots> = [[unquote (quote_field t)]]"
    using exec_quote_field n l by (intro all_rows_single) simp_all
  finally show ?thesis .
qed

lemma quoted_field_round_trip:
  assumes "h \<noteq> []" and "\<not> is_space (hd h)" and "NL \<notin> set h" and "DQ \<notin> set h"
    and "t = [] \<or> (\<exists>c \<in> set t. c \<noteq> DQ)"
  shows "parseFile (h @ NL # quote_field t) = [[t]]"
  using parseFile_quote_field[OF assms(1-4), of t] unquote_quote_field[OF assms(5)] by simp

lemma quoted_field_of_quotes:
  assumes "h \<noteq> []" and "\<not> is_space (hd h)" and "NL \<notin> set h" and "DQ \<notin> set h"
  shows "parseFile (h @ NL # quote_field (replicate (Suc n) DQ)) = [[replicate n DQ]]"
  using parseFile_quote_field[OF assms, of "replicate (Suc n) DQ"] unquote_only_quotes[of n] by simp

lemma unquoted_field_verbatim:
  assumes "h \<noteq> []" and "\<not> is_space (hd h)" and "NL \<notin> set h" and "DQ \<notin> set h"
    and "u \<noteq> []" and "hd u \<noteq> DQ" and "\<not> is_space (last u)"
    and "\<forall>c \<in> set u. c \<noteq> CHR '','' \<and> c \<noteq> NL"
  shows "parseFile (h @ NL # u) = [[u]]"
proof -
  let ?p = "\<lambda>c. c \<noteq> CHR '','' \<and> c \<noteq> NL"
  from assms(8) have t: "takeWhile ?p u = u" and d: "dropWhile ?p u = []" by auto
  have "unquoted u = (u, [])" unfolding unquoted_def Let_def t d by simp
  with assms(6) have e: "exec u = (u, [])" by (simp add: exec_unquoted)
  from assms(5,8) have l: "last u \<noteq> NL" "last u \<noteq> CHR '',''" using last_in_set by blast+
  from assms(5,6) have q: "unquote u = u" by (cases u) (simp_all add: unquote_def startsWith_def)
  have "parseFile (h @ NL # u) = all_rows u"
    using assms by (intro parseFile_second_line) simp_all
  also have "\<dots> = [[unquote u]]" using e assms(5) l by (rule all_rows_single)
  finally show ?thesis using q by simp
qed

text \<open>
  Claim C6 says that a field wrapped in quotes, with every quote of the text doubled,
  is tokenized to the text. In the code the field of four quotes, which stands for the
  text of one quote, is tokenized to the empty string; the field of the example is
  tokenized to its text.
\<close>

theorem quote_only_field_loses_a_quote:
  "parseFile (''id'' @ [NL] @ [DQ, DQ, DQ, DQ]) = [['''']]
   \<and> parseFile (''id'' @ [NL] @ [DQ] @ ''Smith, '' @ [DQ, DQ] @ ''Bob'' @ [DQ, DQ, DQ])
       = [[''Smith, '' @ [DQ] @ ''Bob'' @ [DQ]]]"
  by code_simp

end
